theory Spec2Isabelle
  imports Main
begin

section \<open>Vocabulary\<close>

text \<open>
  The class \<open>Vocabulary\<close> of \<open>ppm_language_model.js\<close>. Only the symbol table is modelled:
  \<open>symbols_\<close> is the array of known symbols, in insertion order. The fields for the
  word-completion heuristics (\<open>wordBreakSymbols\<close>, \<open>currentWord\<close>, \<open>words\<close>) play no part
  in the language model and are left out. The constructor sets \<open>rootSymbol\<close> to 0 and
  nothing ever assigns it again, so it is a constant here.
\<close>

record vocabulary =
  symbols :: "string list"

definition rootSymbol :: int where
  "rootSymbol = 0"

definition Vocabulary :: vocabulary where
  "Vocabulary = \<lparr>symbols = []\<rparr>"

definition size_vocab :: "vocabulary \<Rightarrow> int" where
  "size_vocab v = int (length (symbols v))"

text \<open>JavaScript's \<open>Array.prototype.indexOf\<close>: the first index holding the value, or -1.\<close>

fun indexOfFrom :: "string list \<Rightarrow> string \<Rightarrow> int \<Rightarrow> int" where
  "indexOfFrom [] x i = - 1"
| "indexOfFrom (y # ys) x i = (if y = x then i else indexOfFrom ys x (i + 1))"

definition indexOf :: "string list \<Rightarrow> string \<Rightarrow> int" where
  "indexOf xs x = indexOfFrom xs x 0"

definition includesSymbol :: "string list \<Rightarrow> string \<Rightarrow> bool" where
  "includesSymbol xs x = (x \<in> set xs)"

definition addSymbol :: "vocabulary \<Rightarrow> string \<Rightarrow> vocabulary \<times> int" where
  "addSymbol v s =
     (if \<not> includesSymbol (symbols v) s
      then (let v' = v\<lparr>symbols := symbols v @ [s]\<rparr>
            in (v', int (length (symbols v')) - 1))
      else (v, indexOf (symbols v) s))"

definition getSymbolIndex :: "vocabulary \<Rightarrow> string \<Rightarrow> int" where
  "getSymbolIndex v s = indexOf (symbols v) s"

section \<open>Trie nodes and the object store\<close>

text \<open>
  A \<open>Node\<close> object has the fields \<open>child_\<close>, \<open>next_\<close>, \<open>backoff_\<close>, \<open>count_\<close> and
  \<open>symbol_\<close>. Nodes are mutable and shared (a node is the child of one node and the
  backoff of others), so they live in an explicit store: a list of nodes in allocation
  order, a reference being an index into it and \<open>null\<close> being \<open>None\<close>. \<open>new Node()\<close>
  appends to the store, so a new reference is always fresh. Counts are JavaScript
  numbers (doubles) holding integers; they are integers here, and \<open>increment\<close> below
  is what \<open>count_++\<close> does to them.
\<close>

type_synonym ref = "nat option"

record node =
  child :: ref
  "next" :: ref
  backoff :: ref
  count :: int
  symbol :: int

definition Node :: node where
  "Node = \<lparr>child = None, next = None, backoff = None, count = 1, symbol = rootSymbol\<rparr>"

record "context" =
  head :: ref
  order :: int

text \<open>
  The state of a \<open>PPMLanguageModel\<close> object together with the store of its nodes.
\<close>

record ppm =
  vocab :: vocabulary
  maxOrder :: int
  root :: nat
  rootContext :: "context"
  numNodes :: int
  useExclusion :: bool
  nodes :: "node list"

datatype error =
    VocabTooSmall
  | InvalidSymbol int
  | ExpectedBackoff
  | AssertionFailed
  | TypeError

definition PPMLanguageModel :: "vocabulary \<Rightarrow> int \<Rightarrow> error + ppm" where
  "PPMLanguageModel v mo =
     (if \<not> 1 < size_vocab v then Inl VocabTooSmall
      else Inr \<lparr>vocab = v, maxOrder = mo, root = 0,
                rootContext = \<lparr>head = Some 0, order = 0\<rparr>,
                numNodes = 1, useExclusion = False, nodes = [Node]\<rparr>)"

section \<open>Operations on the trie\<close>

text \<open>
  The loops that follow \<open>next_\<close> and \<open>backoff_\<close> references end only if the chain of
  references does, which the store's type does not promise. They take fuel, the
  number of iterations allowed: \<open>None\<close> is "not finished within the fuel", \<open>Some\<close>
  carries what the code returns or throws. A failed \<open>assert\<close> and a property read
  from \<open>null\<close> are the errors. The guards of \<open>addSymbolToContext\<close> and
  \<open>addSymbolAndUpdate\<close> read \<open>rootSymbol\<close> from the module's vocabulary object and
  the size from the model's; \<open>rootSymbol\<close> is 0 in every vocabulary. \<open>getProbs\<close>
  computes with double-precision numbers and is not part of this development.
\<close>

fun findLoop :: "nat \<Rightarrow> node list \<Rightarrow> ref \<Rightarrow> int \<Rightarrow> ref option" where
  "findLoop 0 h cur s = None"
| "findLoop (Suc k) h None s = Some None"
| "findLoop (Suc k) h (Some a) s =
     (if symbol (h ! a) = s then Some (Some a) else findLoop k h (next (h ! a)) s)"

definition findChildWithSymbol :: "nat \<Rightarrow> node list \<Rightarrow> nat \<Rightarrow> int \<Rightarrow> ref option" where
  "findChildWithSymbol k h n s = findLoop k h (child (h ! n)) s"

text \<open>
  \<open>count_++\<close> on a double that holds an integer: below \<open>2^53 = 9007199254740992\<close> the
  sum is exact; \<open>2^53 + 1\<close> is not a double and rounds back to \<open>2^53\<close>, so a count that
  has reached \<open>2^53\<close> stays there. The counts of a reachable store lie between 1 and
  \<open>2^53\<close> (part of \<open>okNode\<close> below), which is the range this definition speaks for.
\<close>

definition increment :: "int \<Rightarrow> int" where
  "increment c = (if c < 9007199254740992 then c + 1 else c)"

definition bumpCount :: "ppm \<Rightarrow> nat \<Rightarrow> ppm" where
  "bumpCount m c = m\<lparr>nodes := (nodes m)[c := (nodes m ! c)\<lparr>count := increment (count (nodes m ! c))\<rparr>]\<rparr>"

text \<open>
  The four statements that create a child: \<open>symbolNode = new Node()\<close>,
  \<open>symbolNode.symbol_ = symbol\<close>, \<open>symbolNode.next_ = node.child_\<close>,
  \<open>node.child_ = symbolNode\<close>, and \<open>this.numNodes_++\<close>.
\<close>

definition linkChild :: "ppm \<Rightarrow> nat \<Rightarrow> int \<Rightarrow> ppm" where
  "linkChild m n s =
     (let c = length (nodes m);
          new = Node\<lparr>symbol := s, next := child (nodes m ! n)\<rparr>;
          h = nodes m @ [new]
      in m\<lparr>nodes := h[n := (h ! n)\<lparr>child := Some c\<rparr>], numNodes := numNodes m + 1\<rparr>)"

definition setBackoff :: "ppm \<Rightarrow> nat \<Rightarrow> nat \<Rightarrow> ppm" where
  "setBackoff m c b = m\<lparr>nodes := (nodes m)[c := (nodes m ! c)\<lparr>backoff := Some b\<rparr>]\<rparr>"

fun addSymbolToNode :: "nat \<Rightarrow> ppm \<Rightarrow> nat \<Rightarrow> int \<Rightarrow> (error + ppm \<times> nat) option" where
  "addSymbolToNode 0 m n s = None"
| "addSymbolToNode (Suc k) m n s =
     (case findChildWithSymbol k (nodes m) n s of
        None \<Rightarrow> None
      | Some (Some c) \<Rightarrow> Some (Inr (bumpCount m c, c))
      | Some None \<Rightarrow>
          (let c = length (nodes m); m1 = linkChild m n s
           in if n = root m then Some (Inr (setBackoff m1 c (root m), c))
              else (case backoff (nodes m1 ! n) of
                      None \<Rightarrow> Some (Inl ExpectedBackoff)
                    | Some b \<Rightarrow>
                        (case addSymbolToNode k m1 b s of
                           None \<Rightarrow> None
                         | Some (Inl e) \<Rightarrow> Some (Inl e)
                         | Some (Inr (m2, r)) \<Rightarrow> Some (Inr (setBackoff m2 c r, c))))))"

definition createContext :: "ppm \<Rightarrow> context" where
  "createContext m = \<lparr>head = head (rootContext m), order = order (rootContext m)\<rparr>"

definition cloneContext :: "context \<Rightarrow> context" where
  "cloneContext ctx = \<lparr>head = head ctx, order = order ctx\<rparr>"

text \<open>
  The \<open>while (context.head_ != null)\<close> loop of \<open>addSymbolToContext\<close> with the reset to the
  root that follows it.
\<close>

fun extendLoop :: "nat \<Rightarrow> ppm \<Rightarrow> context \<Rightarrow> int \<Rightarrow> context option" where
  "extendLoop 0 m ctx s = None"
| "extendLoop (Suc k) m ctx s =
     (case head ctx of
        None \<Rightarrow> Some \<lparr>head = Some (root m), order = 0\<rparr>
      | Some a \<Rightarrow>
          (if order ctx < maxOrder m
           then (case findChildWithSymbol k (nodes m) a s of
                   None \<Rightarrow> None
                 | Some (Some c) \<Rightarrow> Some \<lparr>head = Some c, order = order ctx + 1\<rparr>
                 | Some None \<Rightarrow>
                     extendLoop k m \<lparr>head = backoff (nodes m ! a), order = order ctx - 1\<rparr> s)
           else extendLoop k m \<lparr>head = backoff (nodes m ! a), order = order ctx - 1\<rparr> s))"

definition addSymbolToContext ::
  "nat \<Rightarrow> ppm \<Rightarrow> context \<Rightarrow> int \<Rightarrow> (error + ppm \<times> context) option" where
  "addSymbolToContext k m ctx s =
     (if s \<le> rootSymbol then Some (Inr (m, ctx))
      else if \<not> s < size_vocab (vocab m) then Some (Inl (InvalidSymbol s))
      else (case extendLoop k m ctx s of
              None \<Rightarrow> None
            | Some ctx' \<Rightarrow> Some (Inr (m, ctx'))))"

text \<open>
  The \<open>while (context.order_ > this.maxOrder_)\<close> loop of \<open>addSymbolAndUpdate\<close>. The order
  drops by one in each iteration, so it ends; reading \<open>backoff_\<close> of \<open>null\<close> throws.
\<close>

function backoffLoop :: "ppm \<Rightarrow> context \<Rightarrow> error + context" where
  "backoffLoop m ctx =
     (if maxOrder m < order ctx
      then (case head ctx of
              None \<Rightarrow> Inl TypeError
            | Some a \<Rightarrow> backoffLoop m \<lparr>head = backoff (nodes m ! a), order = order ctx - 1\<rparr>)
      else Inr ctx)"
  by pat_completeness auto
termination
  by (relation "measure (\<lambda>(m, ctx). nat (order ctx - maxOrder m))") auto

declare backoffLoop.simps [simp del]

definition addSymbolAndUpdate ::
  "nat \<Rightarrow> ppm \<Rightarrow> context \<Rightarrow> int \<Rightarrow> (error + ppm \<times> context) option" where
  "addSymbolAndUpdate k m ctx s =
     (if s \<le> rootSymbol then Some (Inr (m, ctx))
      else if \<not> s < size_vocab (vocab m) then Some (Inl (InvalidSymbol s))
      else (case head ctx of
              None \<Rightarrow> Some (Inl TypeError)
            | Some h \<Rightarrow>
                (case addSymbolToNode k m h s of
                   None \<Rightarrow> None
                 | Some (Inl e) \<Rightarrow> Some (Inl e)
                 | Some (Inr (m', symbolNode)) \<Rightarrow>
                     (case findChildWithSymbol k (nodes m') h s of
                        None \<Rightarrow> None
                      | Some found \<Rightarrow>
                          if found \<noteq> Some symbolNode then Some (Inl AssertionFailed)
                          else (case backoffLoop m' \<lparr>head = Some symbolNode, order = order ctx + 1\<rparr> of
                                  Inl e \<Rightarrow> Some (Inl e)
                                | Inr ctx' \<Rightarrow> Some (Inr (m', ctx')))))))"


section \<open>Reachable states\<close>

text \<open>
  The states a program can reach through the interface: a model built by the
  constructor, contexts made by \<open>createContext\<close> and \<open>cloneContext\<close>, and both
  advanced by \<open>addSymbolToContext\<close> and \<open>addSymbolAndUpdate\<close>. Several contexts may
  point into one trie (rule \<open>kept\<close>: a context stays usable when the trie grows
  through another one). The vocabulary object is shared with the caller and may grow
  at any time, and \<open>useExclusion_\<close> is meant to be switched at run time.
\<close>

inductive reachable :: "ppm \<Rightarrow> context \<Rightarrow> bool" where
  constructed: "PPMLanguageModel v mo = Inr m \<Longrightarrow> reachable m (createContext m)"
| created: "reachable m ctx \<Longrightarrow> reachable m (createContext m)"
| cloned: "reachable m ctx \<Longrightarrow> reachable m (cloneContext ctx)"
| advanced: "reachable m ctx \<Longrightarrow> addSymbolToContext k m ctx s = Some (Inr (m', ctx'))
     \<Longrightarrow> reachable m' ctx'"
| observed: "reachable m ctx \<Longrightarrow> addSymbolAndUpdate k m ctx s = Some (Inr (m', ctx'))
     \<Longrightarrow> reachable m' ctx'"
| kept: "reachable m ctx \<Longrightarrow> reachable m ctx2
     \<Longrightarrow> addSymbolAndUpdate k m ctx s = Some (Inr (m', ctx')) \<Longrightarrow> reachable m' ctx2"
| vocabGrown: "reachable m ctx \<Longrightarrow> reachable (m\<lparr>vocab := fst (addSymbol (vocab m) c)\<rparr>) ctx"
| exclusionSet: "reachable m ctx \<Longrightarrow> reachable (m\<lparr>useExclusion := b\<rparr>) ctx"

section \<open>Well-formed tries\<close>

text \<open>
  The shape of the store of a reachable model, relative to a depth \<open>d\<close> of each node
  (the length of the context it stands for; the code does not store it). For a node
  \<open>a\<close>: its first child is one level deeper, its next sibling was allocated before it
  and lies at the same depth, its backoff lies one level higher, and its count lies
  between 1 and \<open>2^53\<close>, where \<open>count_++\<close> stops counting. The root has depth 0.
\<close>

definition okNode :: "node list \<Rightarrow> (nat \<Rightarrow> nat) \<Rightarrow> nat \<Rightarrow> bool" where
  "okNode h d a \<longleftrightarrow>
     (\<forall>c. child (h ! a) = Some c \<longrightarrow> c < length h \<and> d c = d a + 1) \<and>
     (\<forall>b. next (h ! a) = Some b \<longrightarrow> b < a \<and> d b = d a) \<and>
     (\<forall>b. backoff (h ! a) = Some b \<longrightarrow> b < length h \<and> d a = d b + 1) \<and>
     1 \<le> count (h ! a) \<and> count (h ! a) \<le> 9007199254740992"

definition winv :: "node list \<Rightarrow> nat \<Rightarrow> (nat \<Rightarrow> nat) \<Rightarrow> bool" where
  "winv h r d \<longleftrightarrow> r < length h \<and> d r = 0 \<and> (\<forall>a<length h. okNode h d a)"

text \<open>
  While \<open>addSymbolToNode_\<close> recurses, the nodes it has created so far have no backoff
  yet. \<open>pending\<close> is the set of nodes other than the root without a backoff; it is empty
  between calls.
\<close>

definition pending :: "node list \<Rightarrow> nat \<Rightarrow> nat set" where
  "pending h r = {a. a < length h \<and> a \<noteq> r \<and> backoff (h ! a) = None}"

definition wellFormed :: "ppm \<Rightarrow> bool" where
  "wellFormed m \<longleftrightarrow>
     (\<exists>d. winv (nodes m) (root m) d) \<and> pending (nodes m) (root m) = {}
     \<and> rootContext m = \<lparr>head = Some (root m), order = 0\<rparr>
     \<and> numNodes m = int (length (nodes m))"

definition validContext :: "ppm \<Rightarrow> context \<Rightarrow> bool" where
  "validContext m ctx \<longleftrightarrow> (\<forall>a. head ctx = Some a \<longrightarrow> a < length (nodes m))"

text \<open>
  A context of a reachable model points at a node whose depth is the context's order.
\<close>

definition depthContext :: "ppm \<Rightarrow> (nat \<Rightarrow> nat) \<Rightarrow> context \<Rightarrow> bool" where
  "depthContext m d ctx \<longleftrightarrow>
     (\<exists>a. head ctx = Some a \<and> a < length (nodes m) \<and> order ctx = int (d a))
     \<and> order ctx \<le> maxOrder m"

text \<open>
  The store after the statements that create a child of \<open>n\<close> and link it.
\<close>

definition linked :: "node list \<Rightarrow> nat \<Rightarrow> int \<Rightarrow> node list" where
  "linked h n s =
     (h @ [Node\<lparr>symbol := s, next := child (h ! n)\<rparr>])
       [n := ((h @ [Node\<lparr>symbol := s, next := child (h ! n)\<rparr>]) ! n)\<lparr>child := Some (length h)\<rparr>]"

text \<open>
  What a call of \<open>addSymbolToNode_\<close> on a node of depth \<open>t\<close> leaves alone in the store it
  started from: no node is removed, no \<open>next_\<close>, \<open>symbol_\<close> or \<open>backoff_\<close> of an
  existing node changes, no count drops, the \<open>child_\<close> of deeper nodes and the
  counts of nodes more than one level deeper stay as they are.
\<close>

definition frame :: "(nat \<Rightarrow> nat) \<Rightarrow> nat \<Rightarrow> node list \<Rightarrow> node list \<Rightarrow> bool" where
  "frame d t h h' \<longleftrightarrow>
     length h \<le> length h' \<and>
     (\<forall>x<length h.
        next (h' ! x) = next (h ! x) \<and> symbol (h' ! x) = symbol (h ! x) \<and>
        backoff (h' ! x) = backoff (h ! x) \<and> count (h ! x) \<le> count (h' ! x) \<and>
        (t < d x \<longrightarrow> child (h' ! x) = child (h ! x)) \<and>
        (t + 1 < d x \<longrightarrow> count (h' ! x) = count (h ! x)))"

text \<open>
  The result of \<open>addSymbolToNode_\<close> on node \<open>n\<close> with symbol \<open>s\<close>: the store is well
  formed for a depth that extends the old one, nothing new is pending, the returned
  node \<open>c\<close> lies one level below \<open>n\<close>, carries \<open>s\<close> and is what
  \<open>findChildWithSymbol\<close> finds under \<open>n\<close>.
\<close>

definition grown :: "ppm \<Rightarrow> (nat \<Rightarrow> nat) \<Rightarrow> nat \<Rightarrow> int \<Rightarrow> ppm \<Rightarrow> nat \<Rightarrow> (nat \<Rightarrow> nat) \<Rightarrow> bool" where
  "grown m d n s m' c d' \<longleftrightarrow>
     winv (nodes m') (root m) d' \<and> root m' = root m \<and>
     (\<forall>x<length (nodes m). d' x = d x) \<and>
     pending (nodes m') (root m) \<subseteq> pending (nodes m) (root m) \<and>
     c < length (nodes m') \<and> d' c = d n + 1 \<and> symbol (nodes m' ! c) = s \<and>
     (\<forall>j r. findChildWithSymbol j (nodes m') n s = Some r \<longrightarrow> r = Some c) \<and>
     frame d (d n) (nodes m) (nodes m')"

section \<open>The children of a node\<close>

text \<open>
  The children of a node are its \<open>child_\<close> and the nodes that follow it along
  \<open>next_\<close>. \<open>onChain h r c\<close>: node \<open>c\<close> lies on the sibling chain that starts at the
  reference \<open>r\<close>. This is the relation that \<open>findChildWithSymbol\<close> walks, stated
  without the search.
\<close>

inductive onChain :: "node list \<Rightarrow> ref \<Rightarrow> nat \<Rightarrow> bool" for h :: "node list" where
  first: "onChain h (Some a) a"
| later: "onChain h (next (h ! a)) c \<Longrightarrow> onChain h (Some a) c"

definition isChild :: "node list \<Rightarrow> nat \<Rightarrow> nat \<Rightarrow> bool" where
  "isChild h n c \<longleftrightarrow> onChain h (child (h ! n)) c"

text \<open>
  No two nodes of one sibling chain carry the same symbol.
\<close>

definition distinctSiblings :: "node list \<Rightarrow> bool" where
  "distinctSiblings h \<longleftrightarrow>
     (\<forall>a<length h. \<forall>c. onChain h (next (h ! a)) c \<longrightarrow> symbol (h ! c) \<noteq> symbol (h ! a))"

text \<open>
  The stores on which \<open>addSymbolToNode_\<close> runs: a reachable model, when
  \<open>addSymbolAndUpdate\<close> calls it, and the store in which the new child of \<open>n\<close> has been
  linked but has no backoff yet, when \<open>addSymbolToNode_\<close> calls itself on the backoff
  of \<open>n\<close>. Stores of the second kind are not reachable through the interface.
\<close>

inductive applied :: "ppm \<Rightarrow> nat \<Rightarrow> int \<Rightarrow> bool" where
  called: "reachable m ctx \<Longrightarrow> n < length (nodes m) \<Longrightarrow> applied m n s"
| recursive: "applied m n s \<Longrightarrow> findChildWithSymbol k (nodes m) n s = Some None
     \<Longrightarrow> n \<noteq> root m \<Longrightarrow> backoff (nodes (linkChild m n s) ! n) = Some b
     \<Longrightarrow> applied (linkChild m n s) b s"

section \<open>Example states\<close>

text \<open>
  A vocabulary with the root entry and two letters, the model constructed from it with
  \<open>maxOrder = 2\<close>, the same model after observing \<open>A\<close>, \<open>A\<close> (\<open>trainedModel\<close>) and
  after observing \<open>B\<close> as well (\<open>observedModel\<close>).
\<close>

definition exampleVocab :: vocabulary where
  "exampleVocab = \<lparr>symbols = [''<R>'', ''A'', ''B'']\<rparr>"

definition exampleModel :: ppm where
  "exampleModel = \<lparr>vocab = exampleVocab, maxOrder = 2, root = 0,
     rootContext = \<lparr>head = Some 0, order = 0\<rparr>,
     numNodes = 1, useExclusion = False, nodes = [Node]\<rparr>"

definition exampleContext :: "context" where
  "exampleContext = \<lparr>head = Some 0, order = 0\<rparr>"

definition trainedModel :: ppm where
  "trainedModel = \<lparr>vocab = exampleVocab, maxOrder = 2, root = 0,
     rootContext = \<lparr>head = Some 0, order = 0\<rparr>,
     numNodes = 3, useExclusion = False,
     nodes = [\<lparr>child = Some 1, next = None, backoff = None, count = 1, symbol = 0\<rparr>,
              \<lparr>child = Some 2, next = None, backoff = Some 0, count = 2, symbol = 1\<rparr>,
              \<lparr>child = None, next = None, backoff = Some 1, count = 1, symbol = 1\<rparr>]\<rparr>"

definition trainedContext :: "context" where
  "trainedContext = \<lparr>head = Some 2, order = 2\<rparr>"

definition observedModel :: ppm where
  "observedModel = \<lparr>vocab = exampleVocab, maxOrder = 2, root = 0,
     rootContext = \<lparr>head = Some 0, order = 0\<rparr>,
     numNodes = 6, useExclusion = False,
     nodes = [\<lparr>child = Some 5, next = None, backoff = None, count = 1, symbol = 0\<rparr>,
              \<lparr>child = Some 4, next = None, backoff = Some 0, count = 2, symbol = 1\<rparr>,
              \<lparr>child = Some 3, next = None, backoff = Some 1, count = 1, symbol = 1\<rparr>,
              \<lparr>child = None, next = None, backoff = Some 4, count = 1, symbol = 2\<rparr>,
              \<lparr>child = None, next = Some 2, backoff = Some 5, count = 1, symbol = 2\<rparr>,
              \<lparr>child = None, next = Some 1, backoff = Some 0, count = 1, symbol = 2\<rparr>]\<rparr>"

text \<open>
  The trained model after \<open>addSymbolToNode_\<close> on the node for \<open>A\<close> with \<open>B\<close>
  (\<open>grownModel\<close>: node 3 is the new child of the node for \<open>A\<close>, node 4 the new child
  of the root) and after \<open>addSymbolToNode_\<close> on the root with \<open>A\<close> (\<open>bumpedModel\<close>).
\<close>

definition grownModel :: ppm where
  "grownModel = \<lparr>vocab = exampleVocab, maxOrder = 2, root = 0,
     rootContext = \<lparr>head = Some 0, order = 0\<rparr>,
     numNodes = 5, useExclusion = False,
     nodes = [\<lparr>child = Some 4, next = None, backoff = None, count = 1, symbol = 0\<rparr>,
              \<lparr>child = Some 3, next = None, backoff = Some 0, count = 2, symbol = 1\<rparr>,
              \<lparr>child = None, next = None, backoff = Some 1, count = 1, symbol = 1\<rparr>,
              \<lparr>child = None, next = Some 2, backoff = Some 4, count = 1, symbol = 2\<rparr>,
              \<lparr>child = None, next = Some 1, backoff = Some 0, count = 1, symbol = 2\<rparr>]\<rparr>"

definition bumpedModel :: ppm where
  "bumpedModel = \<lparr>vocab = exampleVocab, maxOrder = 2, root = 0,
     rootContext = \<lparr>head = Some 0, order = 0\<rparr>,
     numNodes = 3, useExclusion = False,
     nodes = [\<lparr>child = Some 1, next = None, backoff = None, count = 1, symbol = 0\<rparr>,
              \<lparr>child = Some 2, next = None, backoff = Some 0, count = 3, symbol = 1\<rparr>,
              \<lparr>child = None, next = None, backoff = Some 1, count = 1, symbol = 1\<rparr>]\<rparr>"

text \<open>
  The model after \<open>A\<close> has been observed \<open>c\<close> times, each time through a fresh context:
  the root and one child with count \<open>c\<close>. In \<open>saturatedModel\<close> the count has reached
  \<open>2^53\<close>.
\<close>

definition countModel :: "int \<Rightarrow> ppm" where
  "countModel c = \<lparr>vocab = exampleVocab, maxOrder = 2, root = 0,
     rootContext = \<lparr>head = Some 0, order = 0\<rparr>,
     numNodes = 2, useExclusion = False,
     nodes = [\<lparr>child = Some 1, next = None, backoff = None, count = 1, symbol = 0\<rparr>,
              \<lparr>child = None, next = None, backoff = Some 0, count = c, symbol = 1\<rparr>]\<rparr>"

definition saturatedModel :: ppm where
  "saturatedModel = countModel 9007199254740992"

section \<open>Fields that the operations leave alone\<close>

lemma addSymbolToNode_fields:
  "addSymbolToNode k m n s = Some (Inr (m', c)) \<Longrightarrow>
     maxOrder m' = maxOrder m \<and> vocab m' = vocab m \<and> root m' = root m
     \<and> rootContext m' = rootContext m \<and> useExclusion m' = useExclusion m"
proof (induction k arbitrary: m n m' c)
  case 0
  then show ?case by simp
next
  case (Suc k)
  then show ?case
    by (auto simp: bumpCount_def linkChild_def setBackoff_def Let_def
        split: option.splits if_splits sum.splits)
qed

lemma backoffLoop_order: "backoffLoop m ctx = Inr ctx' \<Longrightarrow> order ctx' \<le> maxOrder m"
proof (induction m ctx rule: backoffLoop.induct)
  case (1 m ctx)
  then show ?case
    by (subst (asm) (2) backoffLoop.simps) (auto split: if_splits option.splits)
qed


section \<open>More fuel does not change a result\<close>

lemma findLoop_mono:
  "findLoop k h cur s = Some r \<Longrightarrow> k \<le> k' \<Longrightarrow> findLoop k' h cur s = Some r"
proof (induction k arbitrary: cur k')
  case 0
  then show ?case by simp
next
  case (Suc k)
  then obtain j where j: "k' = Suc j" "k \<le> j" by (cases k') auto
  show ?case
  proof (cases cur)
    case None
    with Suc.prems j show ?thesis by simp
  next
    case (Some a)
    with Suc.prems j Suc.IH [of "next (h ! a)" j] show ?thesis
      by (simp split: if_splits)
  qed
qed

lemma findLoop_agree:
  assumes "\<forall>a<N. symbol (h' ! a) = symbol (h ! a) \<and> next (h' ! a) = next (h ! a)"
    and "\<forall>a<N. \<forall>b. next (h ! a) = Some b \<longrightarrow> b < N"
    and "\<forall>a. cur = Some a \<longrightarrow> a < N"
  shows "findLoop k h' cur s = findLoop k h cur s"
  using assms(3)
proof (induction k arbitrary: cur)
  case 0
  then show ?case by simp
next
  case (Suc k)
  show ?case
  proof (cases cur)
    case None
    then show ?thesis by simp
  next
    case (Some a)
    with Suc.prems have a: "a < N" by simp
    have "\<forall>b. next (h ! a) = Some b \<longrightarrow> b < N" using assms(2) a by blast
    then have "findLoop k h' (next (h ! a)) s = findLoop k h (next (h ! a)) s"
      by (intro Suc.IH) simp
    with Some a assms(1) show ?thesis by simp
  qed
qed

lemma findLoop_total:
  assumes ok: "\<forall>a<length h. okNode h d a"
    and cur: "\<forall>a. cur = Some a \<longrightarrow> a < length h \<and> d a = t \<and> a + 1 < k"
    and k: "0 < k"
  shows "\<exists>r. findLoop k h cur s = Some r
           \<and> (\<forall>c. r = Some c \<longrightarrow> c < length h \<and> d c = t \<and> symbol (h ! c) = s)"
  using cur k
proof (induction k arbitrary: cur)
  case 0
  then show ?case by simp
next
  case (Suc k)
  show ?case
  proof (cases cur)
    case None
    then show ?thesis by simp
  next
    case (Some a)
    with Suc.prems have a: "a < length h" "d a = t" "a < k" by auto
    from ok a(1) have "okNode h d a" by blast
    then have na: "\<And>b. next (h ! a) = Some b \<Longrightarrow> b < a \<and> d b = d a"
      unfolding okNode_def by blast
    show ?thesis
    proof (cases "symbol (h ! a) = s")
      case True
      with Some a show ?thesis by simp
    next
      case False
      have c: "\<forall>b. next (h ! a) = Some b \<longrightarrow> b < length h \<and> d b = t \<and> b + 1 < k"
      proof (intro allI impI)
        fix b assume "next (h ! a) = Some b"
        from na [OF this] have "b < a" "d b = d a" by blast+
        with a show "b < length h \<and> d b = t \<and> b + 1 < k" by linarith
      qed
      from a have "0 < k" by linarith
      from Suc.IH [OF c this] Some False show ?thesis by simp
    qed
  qed
qed

lemma findLoop_hit:
  "symbol (h ! a) = s \<Longrightarrow> findLoop j h (Some a) s = Some r \<Longrightarrow> r = Some a"
  by (cases j) simp_all

lemma addSymbolToNode_mono:
  "addSymbolToNode k m n s = Some res \<Longrightarrow> k \<le> k' \<Longrightarrow> addSymbolToNode k' m n s = Some res"
proof (induction k arbitrary: m n res k')
  case 0
  then show ?case by simp
next
  case (Suc k)
  then obtain j where j: "k' = Suc j" "k \<le> j" by (cases k') auto
  from Suc.prems(1) obtain fr where fr: "findChildWithSymbol k (nodes m) n s = Some fr"
    by (cases "findChildWithSymbol k (nodes m) n s") auto
  with j have fr': "findChildWithSymbol j (nodes m) n s = Some fr"
    unfolding findChildWithSymbol_def by (blast intro: findLoop_mono)
  show ?case
  proof (cases fr)
    case (Some c)
    with fr fr' Suc.prems(1) j show ?thesis by simp
  next
    case None
    show ?thesis
    proof (cases "n = root m")
      case True
      with None fr fr' Suc.prems(1) j show ?thesis by (simp add: Let_def)
    next
      case False
      show ?thesis
      proof (cases "backoff (nodes (linkChild m n s) ! n)")
        case bn: None
        with False None fr fr' Suc.prems(1) j show ?thesis by (simp add: Let_def)
      next
        case (Some b)
        from Some False None fr Suc.prems(1)
        obtain x where x: "addSymbolToNode k (linkChild m n s) b s = Some x"
          by (cases "addSymbolToNode k (linkChild m n s) b s") (auto simp: Let_def)
        from Suc.IH [OF x j(2)] have "addSymbolToNode j (linkChild m n s) b s = Some x" .
        with x Some False None fr fr' Suc.prems(1) j show ?thesis by (simp add: Let_def)
      qed
    qed
  qed
qed

section \<open>The three updates of the store keep it well formed\<close>

lemma winv_bump:
  assumes "winv h r d"
  shows "winv (h[c := (h ! c)\<lparr>count := increment (count (h ! c))\<rparr>]) r d"
proof -
  let ?h = "h[c := (h ! c)\<lparr>count := increment (count (h ! c))\<rparr>]"
  have len: "length ?h = length h" by simp
  have "okNode ?h d a" if "a < length h" for a
  proof -
    from assms that have ok: "okNode h d a" unfolding winv_def by blast
    show ?thesis
    proof (cases "a = c")
      case True
      with that have "?h ! a = (h ! a)\<lparr>count := increment (count (h ! a))\<rparr>" by simp
      with ok show ?thesis unfolding okNode_def by (simp add: increment_def)
    next
      case False
      then have "?h ! a = h ! a" by simp
      with ok show ?thesis unfolding okNode_def by simp
    qed
  qed
  with assms show ?thesis unfolding winv_def by simp
qed

lemma pending_bump:
  "pending (h[c := (h ! c)\<lparr>count := increment (count (h ! c))\<rparr>]) r = pending h r"
proof -
  have "backoff ((h[c := (h ! c)\<lparr>count := increment (count (h ! c))\<rparr>]) ! a) = backoff (h ! a)" for a
    by (cases "c < length h") (simp_all add: nth_list_update list_update_beyond)
  then show ?thesis unfolding pending_def by simp
qed

lemma winv_setBackoff:
  assumes "winv h r d" and "b < length h" and "d c = d b + 1"
  shows "winv (h[c := (h ! c)\<lparr>backoff := Some b\<rparr>]) r d"
proof -
  let ?h = "h[c := (h ! c)\<lparr>backoff := Some b\<rparr>]"
  have "okNode ?h d a" if "a < length h" for a
  proof -
    from assms that have ok: "okNode h d a" unfolding winv_def by blast
    show ?thesis
    proof (cases "a = c")
      case True
      with that have "?h ! a = (h ! a)\<lparr>backoff := Some b\<rparr>" by simp
      with ok assms(2,3) True show ?thesis unfolding okNode_def by simp
    next
      case False
      then have "?h ! a = h ! a" by simp
      with ok show ?thesis unfolding okNode_def by simp
    qed
  qed
  with assms show ?thesis unfolding winv_def by simp
qed

lemma pending_setBackoff:
  "pending (h[c := (h ! c)\<lparr>backoff := Some b\<rparr>]) r \<subseteq> pending h r - {c}"
proof
  fix a assume a: "a \<in> pending (h[c := (h ! c)\<lparr>backoff := Some b\<rparr>]) r"
  then have "a < length h" unfolding pending_def by simp
  with a show "a \<in> pending h r - {c}"
    unfolding pending_def by (cases "a = c") simp_all
qed

lemma nodes_linkChild: "nodes (linkChild m n s) = linked (nodes m) n s"
  by (simp add: linkChild_def linked_def Let_def)

lemma length_linked: "length (linked h n s) = Suc (length h)"
  by (simp add: linked_def)

lemma linked_new:
  "n < length h \<Longrightarrow> linked h n s ! length h = Node\<lparr>symbol := s, next := child (h ! n)\<rparr>"
  by (simp add: linked_def nth_append)

lemma linked_parent:
  "n < length h \<Longrightarrow> linked h n s ! n = (h ! n)\<lparr>child := Some (length h)\<rparr>"
  by (simp add: linked_def nth_append)

lemma linked_other:
  "a < length h \<Longrightarrow> a \<noteq> n \<Longrightarrow> linked h n s ! a = h ! a"
  by (simp add: linked_def nth_append)

lemma winv_linked:
  assumes "winv h r d" and n: "n < length h"
  shows "winv (linked h n s) r (d(length h := d n + 1))"
proof -
  let ?h = "linked h n s" and ?d = "d(length h := d n + 1)"
  have dold: "?d a = d a" if "a < length h" for a using that by simp
  have "okNode ?h ?d a" if alen: "a < length ?h" for a
  proof -
    from alen have "a < Suc (length h)" by (simp add: length_linked)
    then consider "a = length h" | "a = n" | "a < length h" "a \<noteq> n"
      by linarith
    then show ?thesis
    proof cases
      case 1
      from assms have "okNode h d n" unfolding winv_def by blast
      then have "\<forall>c. child (h ! n) = Some c \<longrightarrow> c < length h \<and> d c = d n + 1"
        unfolding okNode_def by blast
      with 1 n show ?thesis
        unfolding okNode_def by (simp add: linked_new length_linked Node_def)
    next
      case 2
      from assms n have ok: "okNode h d n" unfolding winv_def by blast
      then have nx: "\<forall>b. next (h ! n) = Some b \<longrightarrow> b < n \<and> d b = d n"
        and bk: "\<forall>b. backoff (h ! n) = Some b \<longrightarrow> b < length h \<and> d n = d b + 1"
        and ct: "1 \<le> count (h ! n)" "count (h ! n) \<le> 9007199254740992"
        unfolding okNode_def by blast+
      from 2 n nx bk ct show ?thesis
        unfolding okNode_def by (auto simp: linked_parent length_linked)
    next
      case 3
      from assms 3 have ok: "okNode h d a" unfolding winv_def by blast
      then have ch: "\<forall>c. child (h ! a) = Some c \<longrightarrow> c < length h \<and> d c = d a + 1"
        and nx: "\<forall>b. next (h ! a) = Some b \<longrightarrow> b < a \<and> d b = d a"
        and bk: "\<forall>b. backoff (h ! a) = Some b \<longrightarrow> b < length h \<and> d a = d b + 1"
        and ct: "1 \<le> count (h ! a)" "count (h ! a) \<le> 9007199254740992"
        unfolding okNode_def by blast+
      from 3 ch nx bk ct show ?thesis
        unfolding okNode_def by (auto simp: linked_other length_linked)
    qed
  qed
  moreover from assms have "r < length ?h" "?d r = 0"
    unfolding winv_def by (auto simp: length_linked)
  ultimately show ?thesis unfolding winv_def by blast
qed

lemma pending_linked:
  assumes "n < length h"
  shows "pending (linked h n s) r \<subseteq> insert (length h) (pending h r)"
proof
  fix a assume a: "a \<in> pending (linked h n s) r"
  then have "a < Suc (length h)" unfolding pending_def by (simp add: length_linked)
  then consider "a = length h" | "a = n" | "a < length h" "a \<noteq> n" using assms by linarith
  then show "a \<in> insert (length h) (pending h r)"
  proof cases
    case 1
    then show ?thesis by simp
  next
    case 2
    with a assms show ?thesis unfolding pending_def by (simp add: linked_parent)
  next
    case 3
    with a show ?thesis unfolding pending_def by (simp add: linked_other)
  qed
qed

lemma nodes_setBackoff:
  "nodes (setBackoff m c b) = (nodes m)[c := (nodes m ! c)\<lparr>backoff := Some b\<rparr>]"
  by (simp add: setBackoff_def)

lemma root_setBackoff: "root (setBackoff m c b) = root m"
  by (simp add: setBackoff_def)

lemma root_linkChild: "root (linkChild m n s) = root m"
  by (simp add: linkChild_def Let_def)

section \<open>Searching the children of a node\<close>

lemma next_closed:
  assumes "winv h r d"
  shows "\<forall>a<length h. \<forall>b. next (h ! a) = Some b \<longrightarrow> b < length h"
proof (intro allI impI)
  fix a b assume a: "a < length h" and b: "next (h ! a) = Some b"
  from assms a have "okNode h d a" unfolding winv_def by blast
  with b have "b < a" unfolding okNode_def by blast
  with a show "b < length h" by linarith
qed

lemma backoff_range:
  assumes "winv h r d" and "a < length h" and "backoff (h ! a) = Some b"
  shows "b < length h \<and> d a = d b + 1"
proof -
  from assms(1,2) have "okNode h d a" unfolding winv_def by blast
  with assms(3) show ?thesis unfolding okNode_def by blast
qed

lemma findChild_total:
  assumes "winv h r d" and "n < length h"
  shows "\<exists>fr. findChildWithSymbol (Suc (length h)) h n s = Some fr
           \<and> (\<forall>c. fr = Some c \<longrightarrow> c < length h \<and> d c = d n + 1 \<and> symbol (h ! c) = s)"
proof -
  from assms have ok: "\<forall>a<length h. okNode h d a" unfolding winv_def by blast
  with assms(2) have "okNode h d n" by blast
  then have "\<forall>a. child (h ! n) = Some a \<longrightarrow> a < length h \<and> d a = d n + 1 \<and> a + 1 < Suc (length h)"
    unfolding okNode_def by simp
  from findLoop_total [OF ok this] show ?thesis
    unfolding findChildWithSymbol_def by simp
qed

lemma findChild_range:
  assumes "winv h r d" and "n < length h" and "findChildWithSymbol k h n s = Some (Some c)"
  shows "c < length h \<and> d c = d n + 1 \<and> symbol (h ! c) = s"
proof -
  from findChild_total [OF assms(1,2), of s] obtain fr
    where fr: "findChildWithSymbol (Suc (length h)) h n s = Some fr"
      and frc: "\<forall>c. fr = Some c \<longrightarrow> c < length h \<and> d c = d n + 1 \<and> symbol (h ! c) = s"
    by blast
  let ?J = "max k (Suc (length h))"
  have le: "k \<le> ?J" "Suc (length h) \<le> ?J" by (rule max.cobounded1, rule max.cobounded2)
  from assms(3) have "findLoop k h (child (h ! n)) s = Some (Some c)"
    unfolding findChildWithSymbol_def .
  from findLoop_mono [OF this le(1)] have a: "findLoop ?J h (child (h ! n)) s = Some (Some c)" .
  from fr have "findLoop (Suc (length h)) h (child (h ! n)) s = Some fr"
    unfolding findChildWithSymbol_def .
  from findLoop_mono [OF this le(2)] a have "fr = Some c" by simp
  with frc show ?thesis by blast
qed

lemma findChild_enough:
  assumes "winv h r d" and "n < length h" and "Suc (length h) \<le> k"
  shows "\<exists>fr. findChildWithSymbol k h n s = Some fr"
proof -
  from findChild_total [OF assms(1,2), of s] obtain fr
    where "findLoop (Suc (length h)) h (child (h ! n)) s = Some fr"
    unfolding findChildWithSymbol_def by blast
  from findLoop_mono [OF this assms(3)] show ?thesis
    unfolding findChildWithSymbol_def by blast
qed

section \<open>What growing leaves alone\<close>

lemma frame_refl: "frame d t h h"
  unfolding frame_def by simp

lemma frame_trans:
  assumes "frame d t h h1" and "frame d1 t1 h1 h2"
    and "\<forall>x<length h. d1 x = d x" and "t1 \<le> t"
  shows "frame d t h h2"
  unfolding frame_def
proof (intro conjI allI impI)
  from assms(1,2) show "length h \<le> length h2" unfolding frame_def by linarith
next
  fix x assume x: "x < length h"
  with assms(1) have x1: "x < length h1" unfolding frame_def by linarith
  from assms(1) x have a:
    "next (h1 ! x) = next (h ! x)" "symbol (h1 ! x) = symbol (h ! x)"
    "backoff (h1 ! x) = backoff (h ! x)" "count (h ! x) \<le> count (h1 ! x)"
    "t < d x \<longrightarrow> child (h1 ! x) = child (h ! x)"
    "t + 1 < d x \<longrightarrow> count (h1 ! x) = count (h ! x)"
    unfolding frame_def by blast+
  from assms(2) x1 have b:
    "next (h2 ! x) = next (h1 ! x)" "symbol (h2 ! x) = symbol (h1 ! x)"
    "backoff (h2 ! x) = backoff (h1 ! x)" "count (h1 ! x) \<le> count (h2 ! x)"
    "t1 < d1 x \<longrightarrow> child (h2 ! x) = child (h1 ! x)"
    "t1 + 1 < d1 x \<longrightarrow> count (h2 ! x) = count (h1 ! x)"
    unfolding frame_def by blast+
  from assms(3) x have dx: "d1 x = d x" by blast
  show "next (h2 ! x) = next (h ! x)" using a b by simp
  show "symbol (h2 ! x) = symbol (h ! x)" using a b by simp
  show "backoff (h2 ! x) = backoff (h ! x)" using a b by simp
  show "count (h ! x) \<le> count (h2 ! x)" using a b by linarith
  show "child (h2 ! x) = child (h ! x)" if "t < d x"
  proof -
    from that assms(4) dx have "t1 < d1 x" by linarith
    with that a b show ?thesis by simp
  qed
  show "count (h2 ! x) = count (h ! x)" if "t + 1 < d x"
  proof -
    from that assms(4) dx have "t1 + 1 < d1 x" by linarith
    with that a b show ?thesis by simp
  qed
qed

lemma frame_linked:
  assumes "n < length h" and "d n \<le> t"
  shows "frame d t h (linked h n s)"
  unfolding frame_def
proof (intro conjI allI impI)
  show "length h \<le> length (linked h n s)" by (simp add: length_linked)
next
  fix x assume x: "x < length h"
  have eq: "linked h n s ! x = (if x = n then (h ! n)\<lparr>child := Some (length h)\<rparr> else h ! x)"
    using x assms(1) by (simp add: linked_parent linked_other)
  show "next (linked h n s ! x) = next (h ! x)" by (simp add: eq)
  show "symbol (linked h n s ! x) = symbol (h ! x)" by (simp add: eq)
  show "backoff (linked h n s ! x) = backoff (h ! x)" by (simp add: eq)
  show "count (h ! x) \<le> count (linked h n s ! x)" by (simp add: eq)
  show "count (linked h n s ! x) = count (h ! x)" if "t + 1 < d x" by (simp add: eq)
  show "child (linked h n s ! x) = child (h ! x)" if "t < d x"
  proof -
    from that assms(2) have "x \<noteq> n" by auto
    then show ?thesis by (simp add: eq)
  qed
qed

lemma frame_setBackoff_new:
  assumes "frame d t h h2" and "length h \<le> a"
  shows "frame d t h (h2[a := (h2 ! a)\<lparr>backoff := Some b\<rparr>])"
proof -
  have "(h2[a := (h2 ! a)\<lparr>backoff := Some b\<rparr>]) ! x = h2 ! x" if "x < length h" for x
    using that assms(2) by simp
  with assms(1) show ?thesis unfolding frame_def by simp
qed

lemma frame_counts:
  assumes "frame d t h h'"
  shows "length h \<le> length h' \<and> (\<forall>a<length h. count (h ! a) \<le> count (h' ! a))"
  using assms unfolding frame_def by blast

section \<open>Growing the trie\<close>

lemma grown_found:
  assumes inv: "winv (nodes m) (root m) d" and n: "n < length (nodes m)"
    and fr: "findChildWithSymbol K (nodes m) n s = Some (Some c)"
    and c: "c < length (nodes m)" "d c = d n + 1" "symbol (nodes m ! c) = s"
  shows "grown m d n s (bumpCount m c) c d"
proof -
  let ?h = "nodes m"
  let ?h' = "?h[c := (?h ! c)\<lparr>count := increment (count (?h ! c))\<rparr>]"
  have nodes': "nodes (bumpCount m c) = ?h'" and root': "root (bumpCount m c) = root m"
    by (simp_all add: bumpCount_def)
  have fields: "next (?h' ! x) = next (?h ! x) \<and> symbol (?h' ! x) = symbol (?h ! x)
      \<and> backoff (?h' ! x) = backoff (?h ! x) \<and> child (?h' ! x) = child (?h ! x)
      \<and> count (?h ! x) \<le> count (?h' ! x) \<and> (x \<noteq> c \<longrightarrow> count (?h' ! x) = count (?h ! x))"
    if "x < length ?h" for x
    using that by (cases "x = c") (simp_all add: increment_def)
  have 1: "winv ?h' (root m) d" using inv by (rule winv_bump)
  have 2: "pending ?h' (root m) \<subseteq> pending ?h (root m)" by (simp add: pending_bump)
  have 3: "c < length ?h'" "symbol (?h' ! c) = s" using c fields [of c] by simp_all
  have 4: "r' = Some c" if "findChildWithSymbol j ?h' n s = Some r'" for j r'
  proof -
    from inv n have "okNode ?h d n" unfolding winv_def by blast
    then have cur: "\<forall>a. child (?h ! n) = Some a \<longrightarrow> a < length ?h"
      unfolding okNode_def by blast
    have "findLoop j ?h' (child (?h ! n)) s = findLoop j ?h (child (?h ! n)) s"
      using fields next_closed [OF inv] cur
      by (intro findLoop_agree [where N = "length ?h"]) blast+
    with that fields [OF n] have a: "findLoop j ?h (child (?h ! n)) s = Some r'"
      unfolding findChildWithSymbol_def by simp
    from fr have b: "findLoop K ?h (child (?h ! n)) s = Some (Some c)"
      unfolding findChildWithSymbol_def .
    from findLoop_mono [OF a, of "max j K"] findLoop_mono [OF b, of "max j K"]
    show ?thesis by simp
  qed
  have 5: "frame d (d n) ?h ?h'"
    unfolding frame_def
  proof (intro conjI allI impI)
    show "length ?h \<le> length ?h'" by simp
  next
    fix x assume "x < length ?h" "d n + 1 < d x"
    with c(2) have "x \<noteq> c" by auto
    with fields \<open>x < length ?h\<close> show "count (?h' ! x) = count (?h ! x)" by blast
  qed (use fields in blast)+
  from 1 2 3 4 5 c(2) show ?thesis
    unfolding grown_def nodes' root' by blast
qed

text \<open>
  The last step of growing: the new node \<open>a\<close>, linked under \<open>n\<close>, gets its backoff
  \<open>b\<close>, after the recursive call has taken the store from \<open>linked\<close> to \<open>h2\<close>.
\<close>

lemma grown_finish:
  assumes inv: "winv (nodes m) (root m) d" and n: "n < length (nodes m)"
    and a: "a = length (nodes m)"
    and inv2: "winv h2 (root m) d2"
    and d2: "\<forall>x<Suc (length (nodes m)). d2 x = (d(a := d n + 1)) x"
    and p2: "pending h2 (root m) \<subseteq> insert a (pending (nodes m) (root m))"
    and f2: "frame (d(a := d n + 1)) t1 (linked (nodes m) n s) h2" and t1: "t1 < d n \<or> h2 = linked (nodes m) n s"
    and b: "b < length h2" "d2 b = d n"
    and m': "nodes m' = h2[a := (h2 ! a)\<lparr>backoff := Some b\<rparr>]" "root m' = root m"
  shows "grown m d n s m' a d2"
proof -
  let ?h = "nodes m" and ?h1 = "linked (nodes m) n s" and ?d1 = "d(a := d n + 1)"
  let ?h' = "h2[a := (h2 ! a)\<lparr>backoff := Some b\<rparr>]"
  from f2 have len: "Suc (length ?h) \<le> length h2"
    unfolding frame_def by (simp add: length_linked)
  have a2: "a < length h2" using len a by linarith
  have na: "n \<noteq> a" using n a by simp
  from d2 a have d2a: "d2 a = d n + 1" by simp
  have d2old: "d2 x = d x" if "x < length ?h" for x
    using d2 that a by simp
  have 1: "winv ?h' (root m) d2"
    using inv2 b(1) by (rule winv_setBackoff) (simp add: d2a b(2))
  have 2: "pending ?h' (root m) \<subseteq> pending ?h (root m)"
    using pending_setBackoff [of h2 a b "root m"] p2 by blast
  have 3: "a < length ?h'" using a2 by simp
  have f2a: "next (h2 ! x) = next (?h1 ! x)" "symbol (h2 ! x) = symbol (?h1 ! x)"
    "count (?h1 ! x) \<le> count (h2 ! x)"
    if "x < Suc (length ?h)" for x
    using f2 that unfolding frame_def by (simp_all add: length_linked)
  have sym_a: "symbol (?h' ! a) = s"
    using a2 f2a(2) [of a] a n by (simp add: linked_new)
  have child_n: "child (?h' ! n) = Some a"
  proof -
    have "child (h2 ! n) = child (?h1 ! n)"
    proof (cases "h2 = ?h1")
      case True
      then show ?thesis by simp
    next
      case False
      with t1 have "t1 < ?d1 n" using na by simp
      with f2 n show ?thesis unfolding frame_def by (simp add: length_linked)
    qed
    with na n a show ?thesis by (simp add: linked_parent)
  qed
  have 4: "r = Some a" if "findChildWithSymbol j ?h' n s = Some r" for j r
    using that child_n sym_a unfolding findChildWithSymbol_def
    by (simp add: findLoop_hit)
  have fr1: "frame d (d n) ?h ?h1" using n by (rule frame_linked) simp
  have "frame d (d n) ?h h2"
  proof (cases "h2 = ?h1")
    case True
    with fr1 show ?thesis by simp
  next
    case False
    with t1 have "t1 \<le> d n" by simp
    moreover have "\<forall>x<length ?h. ?d1 x = d x" using a by simp
    ultimately show ?thesis using frame_trans [OF fr1 f2] by blast
  qed
  then have 5: "frame d (d n) ?h ?h'" by (rule frame_setBackoff_new) (simp add: a)
  from 1 2 3 4 5 d2a sym_a d2old m' show ?thesis
    unfolding grown_def by simp
qed

text \<open>
  \<open>addSymbolToNode_\<close> returns on every node of a well-formed store whose pending nodes
  lie more than one level below it, by induction on the depth of the node: the
  recursive call is on the backoff, one level higher.
\<close>

lemma addSymbolToNode_grows:
  assumes "winv (nodes m) (root m) d" and "n < length (nodes m)"
    and "\<forall>x\<in>pending (nodes m) (root m). d n + 1 < d x"
  shows "\<exists>k m' c d'. addSymbolToNode k m n s = Some (Inr (m', c)) \<and> grown m d n s m' c d'"
  using assms
proof (induction "d n" arbitrary: m n d rule: less_induct)
  case less
  let ?h = "nodes m" and ?a = "length (nodes m)" and ?m1 = "linkChild m n s"
  let ?d1 = "d(?a := d n + 1)" and ?K = "Suc (length (nodes m))"
  note inv = less.prems(1) and n = less.prems(2) and pend = less.prems(3)
  from findChild_total [OF inv n, of s] obtain fr
    where fr: "findChildWithSymbol ?K ?h n s = Some fr"
      and frc: "\<forall>c. fr = Some c \<longrightarrow> c < length ?h \<and> d c = d n + 1 \<and> symbol (?h ! c) = s"
    by blast
  have h1: "nodes ?m1 = linked ?h n s" by (rule nodes_linkChild)
  have inv1: "winv (linked ?h n s) (root m) ?d1" using inv n by (rule winv_linked)
  have p1: "pending (linked ?h n s) (root m) \<subseteq> insert ?a (pending ?h (root m))"
    using n by (rule pending_linked)
  show ?case
  proof (cases fr)
    case (Some c)
    with frc have c: "c < length ?h" "d c = d n + 1" "symbol (?h ! c) = s" by blast+
    from fr Some have "addSymbolToNode (Suc ?K) m n s = Some (Inr (bumpCount m c, c))" by simp
    moreover have "grown m d n s (bumpCount m c) c d"
      using inv n fr [unfolded Some] c by (rule grown_found)
    ultimately show ?thesis by blast
  next
    case None
    show ?thesis
    proof (cases "n = root m")
      case True
      let ?m' = "setBackoff ?m1 ?a (root m)"
      from fr None True have "addSymbolToNode (Suc ?K) m n s = Some (Inr (?m', ?a))"
        by (simp add: Let_def)
      moreover have "grown m d n s ?m' ?a ?d1"
      proof (rule grown_finish [OF inv n refl inv1, where ?t1.0 = 0 and b = "root m"])
        show "\<forall>x<Suc ?a. ?d1 x = ?d1 x" by simp
        show "pending (linked ?h n s) (root m) \<subseteq> insert ?a (pending ?h (root m))" by (rule p1)
        show "frame ?d1 0 (linked ?h n s) (linked ?h n s)" by (rule frame_refl)
        show "0 < d n \<or> linked ?h n s = linked ?h n s" by simp
        show "root m < length (linked ?h n s)" using True n by (simp add: length_linked)
        show "?d1 (root m) = d n" using True n by simp
        show "nodes ?m' = (linked ?h n s)[?a := (linked ?h n s ! ?a)\<lparr>backoff := Some (root m)\<rparr>]"
          by (simp add: nodes_setBackoff h1)
        show "root ?m' = root m" by (simp add: root_setBackoff root_linkChild)
      qed
      ultimately show ?thesis by blast
    next
      case False
      have "backoff (?h ! n) \<noteq> None"
      proof
        assume "backoff (?h ! n) = None"
        with False n have "n \<in> pending ?h (root m)" unfolding pending_def by simp
        with pend show False by fastforce
      qed
      then obtain b where b: "backoff (?h ! n) = Some b" by blast
      from inv n have "okNode ?h d n" unfolding winv_def by blast
      with b have bl: "b < length ?h" and db: "d n = d b + 1" unfolding okNode_def by blast+
      have b1: "backoff (nodes ?m1 ! n) = Some b" using b n by (simp add: h1 linked_parent)
      have d1b: "?d1 b = d b" using bl by simp
      have "\<exists>k m' c d'. addSymbolToNode k ?m1 b s = Some (Inr (m', c)) \<and> grown ?m1 ?d1 b s m' c d'"
      proof (rule less.hyps)
        show "?d1 b < d n" using d1b db by simp
        show "winv (nodes ?m1) (root ?m1) ?d1" using inv1 by (simp add: h1 root_linkChild)
        show "b < length (nodes ?m1)" using bl by (simp add: h1 length_linked)
        show "\<forall>x\<in>pending (nodes ?m1) (root ?m1). ?d1 b + 1 < ?d1 x"
        proof
          fix x assume "x \<in> pending (nodes ?m1) (root ?m1)"
          with p1 have "x = ?a \<or> x \<in> pending ?h (root m)" by (auto simp: h1 root_linkChild)
          then show "?d1 b + 1 < ?d1 x"
          proof
            assume "x = ?a"
            with d1b db show ?thesis by simp
          next
            assume x: "x \<in> pending ?h (root m)"
            then have "x < ?a" unfolding pending_def by simp
            moreover from x pend have "d n + 1 < d x" by blast
            ultimately show ?thesis using d1b db by simp
          qed
        qed
      qed
      then obtain k2 m2 c2 d2
        where rec: "addSymbolToNode k2 ?m1 b s = Some (Inr (m2, c2))"
          and g: "grown ?m1 ?d1 b s m2 c2 d2"
        by (elim exE conjE) (rule that)
      let ?m' = "setBackoff m2 ?a c2" and ?J = "max ?K k2"
      have KJ: "?K \<le> ?J" and kJ: "k2 \<le> ?J" by (rule max.cobounded1, rule max.cobounded2)
      from fr None have "findLoop ?K ?h (child (?h ! n)) s = Some None"
        unfolding findChildWithSymbol_def by blast
      from findLoop_mono [OF this KJ] have "findChildWithSymbol ?J ?h n s = Some None"
        unfolding findChildWithSymbol_def .
      moreover from rec kJ have "addSymbolToNode ?J ?m1 b s = Some (Inr (m2, c2))"
        by (rule addSymbolToNode_mono)
      ultimately have "addSymbolToNode (Suc ?J) m n s = Some (Inr (?m', ?a))"
        using False b1 by (simp add: Let_def)
      moreover have "grown m d n s ?m' ?a d2"
      proof (rule grown_finish [OF inv n refl, where ?t1.0 = "?d1 b" and b = c2 and ?h2.0 = "nodes m2"])
        from g show "winv (nodes m2) (root m) d2"
          unfolding grown_def by (simp add: root_linkChild)
        from g show "\<forall>x<Suc ?a. d2 x = ?d1 x"
          unfolding grown_def by (simp add: h1 length_linked)
        from g have "pending (nodes m2) (root m) \<subseteq> pending (linked ?h n s) (root m)"
          unfolding grown_def by (simp add: h1 root_linkChild)
        with p1 show "pending (nodes m2) (root m) \<subseteq> insert ?a (pending ?h (root m))" by blast
        from g show "frame ?d1 (?d1 b) (linked ?h n s) (nodes m2)"
          unfolding grown_def by (simp add: h1)
        show "?d1 b < d n \<or> nodes m2 = linked ?h n s" using d1b db by simp
        from g show "c2 < length (nodes m2)" unfolding grown_def by blast
        from g have "d2 c2 = ?d1 b + 1" unfolding grown_def by blast
        with d1b db show "d2 c2 = d n" by simp
        show "nodes ?m' = (nodes m2)[?a := (nodes m2 ! ?a)\<lparr>backoff := Some c2\<rparr>]"
          by (rule nodes_setBackoff)
        from g show "root ?m' = root m"
          unfolding grown_def by (simp add: root_setBackoff root_linkChild)
      qed
      ultimately show ?thesis by blast
    qed
  qed
qed

lemma addSymbolToNode_result:
  assumes "winv (nodes m) (root m) d" and "n < length (nodes m)"
    and "\<forall>x\<in>pending (nodes m) (root m). d n + 1 < d x"
    and "addSymbolToNode k m n s = Some res"
  shows "\<exists>m' c d'. res = Inr (m', c) \<and> grown m d n s m' c d'"
proof -
  from addSymbolToNode_grows [OF assms(1-3), of s] obtain k0 m' c d'
    where r: "addSymbolToNode k0 m n s = Some (Inr (m', c))" and g: "grown m d n s m' c d'"
    by (elim exE conjE)
  have "k0 \<le> max k0 k" "k \<le> max k0 k" by (rule max.cobounded1, rule max.cobounded2)
  from addSymbolToNode_mono [OF r this(1)] addSymbolToNode_mono [OF assms(4) this(2)]
  have "res = Inr (m', c)" by simp
  with g show ?thesis by blast
qed

lemma addSymbolToNode_numNodes:
  "addSymbolToNode k m n s = Some (Inr (m', c)) \<Longrightarrow>
     numNodes m' - int (length (nodes m')) = numNodes m - int (length (nodes m))"
proof (induction k arbitrary: m n m' c)
  case 0
  then show ?case by simp
next
  case (Suc k)
  from Suc.prems obtain fr where fr: "findChildWithSymbol k (nodes m) n s = Some fr"
    by (cases "findChildWithSymbol k (nodes m) n s") auto
  have l: "numNodes (linkChild m n s) - int (length (nodes (linkChild m n s)))
      = numNodes m - int (length (nodes m))"
    by (simp add: linkChild_def Let_def)
  show ?case
  proof (cases fr)
    case (Some e)
    with fr Suc.prems show ?thesis by (auto simp: bumpCount_def)
  next
    case None
    show ?thesis
    proof (cases "n = root m")
      case True
      with None fr Suc.prems have "m' = setBackoff (linkChild m n s) (length (nodes m)) (root m)"
        by (auto simp: Let_def)
      with l show ?thesis by (simp add: setBackoff_def)
    next
      case False
      with None fr Suc.prems obtain b m2 r
        where "addSymbolToNode k (linkChild m n s) b s = Some (Inr (m2, r))"
          and m': "m' = setBackoff m2 (length (nodes m)) r"
        by (auto simp: Let_def split: option.splits sum.splits)
      from Suc.IH [OF this(1)] l m' show ?thesis by (simp add: setBackoff_def)
    qed
  qed
qed

lemma wellFormed_grown:
  assumes wf: "wellFormed m" and n: "n < length (nodes m)"
    and r: "addSymbolToNode k m n s = Some res"
  shows "\<exists>m' c d d'. res = Inr (m', c) \<and> winv (nodes m) (root m) d \<and> grown m d n s m' c d'
            \<and> wellFormed m'"
proof -
  from wf obtain d where d: "winv (nodes m) (root m) d" and p: "pending (nodes m) (root m) = {}"
    unfolding wellFormed_def by blast
  from p have "\<forall>x\<in>pending (nodes m) (root m). d n + 1 < d x" by simp
  from addSymbolToNode_result [OF d n this r] obtain m' c d'
    where res: "res = Inr (m', c)" and g: "grown m d n s m' c d'"
    by (elim exE conjE)
  from r res have f: "maxOrder m' = maxOrder m \<and> vocab m' = vocab m \<and> root m' = root m
     \<and> rootContext m' = rootContext m \<and> useExclusion m' = useExclusion m"
    by (intro addSymbolToNode_fields) simp
  from r res have "numNodes m' - int (length (nodes m')) = numNodes m - int (length (nodes m))"
    by (intro addSymbolToNode_numNodes) simp
  with wf have nn: "numNodes m' = int (length (nodes m'))" unfolding wellFormed_def by simp
  from g p have "winv (nodes m') (root m') d'" "pending (nodes m') (root m') = {}"
    unfolding grown_def by auto
  with f nn wf have "wellFormed m'" unfolding wellFormed_def by auto
  with res d g show ?thesis by blast
qed

section \<open>Reachable states are well formed\<close>

lemma extendLoop_valid:
  assumes "winv (nodes m) (root m) d"
  shows "validContext m ctx \<Longrightarrow> extendLoop k m ctx s = Some ctx' \<Longrightarrow> validContext m ctx'"
proof (induction k arbitrary: ctx)
  case 0
  then show ?case by simp
next
  case (Suc k)
  show ?case
  proof (cases "head ctx")
    case None
    with Suc.prems(2) have "ctx' = \<lparr>head = Some (root m), order = 0\<rparr>" by simp
    with assms show ?thesis unfolding validContext_def winv_def by simp
  next
    case (Some a)
    with Suc.prems(1) have a: "a < length (nodes m)" unfolding validContext_def by simp
    let ?up = "\<lparr>head = backoff (nodes m ! a), order = order ctx - 1\<rparr>"
    have vb: "validContext m ?up"
      unfolding validContext_def using backoff_range [OF assms a] by simp
    show ?thesis
    proof (cases "order ctx < maxOrder m")
      case False
      with Some Suc.prems(2) have "extendLoop k m ?up s = Some ctx'" by simp
      with vb show ?thesis by (rule Suc.IH)
    next
      case True
      from Some True Suc.prems(2) obtain fr
        where fr: "findChildWithSymbol k (nodes m) a s = Some fr"
        by (cases "findChildWithSymbol k (nodes m) a s") auto
      show ?thesis
      proof (cases fr)
        case None
        with fr Some True Suc.prems(2) have "extendLoop k m ?up s = Some ctx'" by simp
        with vb show ?thesis by (rule Suc.IH)
      next
        case c: (Some c)
        with fr Some True Suc.prems(2) have "ctx' = \<lparr>head = Some c, order = order ctx + 1\<rparr>"
          by simp
        moreover from findChild_range [OF assms a fr [unfolded c]] have "c < length (nodes m)"
          by blast
        ultimately show ?thesis unfolding validContext_def by simp
      qed
    qed
  qed
qed

lemma backoffLoop_valid:
  "winv (nodes m) (root m) d \<Longrightarrow> validContext m ctx \<Longrightarrow> backoffLoop m ctx = Inr ctx'
     \<Longrightarrow> validContext m ctx'"
proof (induction m ctx rule: backoffLoop.induct)
  case (1 m ctx)
  note inv = "1.prems"(1) and valid = "1.prems"(2) and run = "1.prems"(3)
  show ?case
  proof (cases "maxOrder m < order ctx")
    case False
    with run have "ctx' = ctx" by (subst (asm) backoffLoop.simps) simp
    with valid show ?thesis by simp
  next
    case True
    with run obtain a where a: "head ctx = Some a"
      by (subst (asm) backoffLoop.simps) (auto split: option.splits)
    let ?up = "\<lparr>head = backoff (nodes m ! a), order = order ctx - 1\<rparr>"
    from a valid have al: "a < length (nodes m)" unfolding validContext_def by simp
    have vb: "validContext m ?up"
      unfolding validContext_def using backoff_range [OF inv al] by simp
    from True a run have "backoffLoop m ?up = Inr ctx'"
      by (subst (asm) backoffLoop.simps) simp
    with "1.IH" [OF True a inv vb] show ?thesis by blast
  qed
qed

lemma addSymbolAndUpdate_cases:
  assumes "addSymbolAndUpdate k m ctx s = Some (Inr (m', ctx'))"
  shows "(s \<le> rootSymbol \<and> m' = m \<and> ctx' = ctx) \<or>
         (rootSymbol < s \<and> s < size_vocab (vocab m) \<and>
          (\<exists>h sn. head ctx = Some h \<and> addSymbolToNode k m h s = Some (Inr (m', sn))
              \<and> findChildWithSymbol k (nodes m') h s = Some (Some sn)
              \<and> backoffLoop m' \<lparr>head = Some sn, order = order ctx + 1\<rparr> = Inr ctx'))"
  using assms unfolding addSymbolAndUpdate_def
  by (auto split: if_splits option.splits sum.splits)

lemma observe_step:
  assumes wf: "wellFormed m" and v: "validContext m ctx"
    and run: "addSymbolAndUpdate k m ctx s = Some (Inr (m', ctx'))"
  shows "wellFormed m' \<and> validContext m' ctx' \<and> length (nodes m) \<le> length (nodes m')
         \<and> (\<forall>a<length (nodes m). count (nodes m ! a) \<le> count (nodes m' ! a))"
proof -
  from addSymbolAndUpdate_cases [OF run] show ?thesis
  proof (elim disjE conjE exE)
    assume "m' = m" "ctx' = ctx"
    with wf v show ?thesis by simp
  next
    fix h sn
    assume h: "head ctx = Some h"
      and grow: "addSymbolToNode k m h s = Some (Inr (m', sn))"
      and bo: "backoffLoop m' \<lparr>head = Some sn, order = order ctx + 1\<rparr> = Inr ctx'"
    from h v have hl: "h < length (nodes m)" unfolding validContext_def by simp
    from wellFormed_grown [OF wf hl grow] obtain d d'
      where g: "grown m d h s m' sn d'" and wf': "wellFormed m'"
      by auto
    from g have inv': "winv (nodes m') (root m') d'" and sn: "sn < length (nodes m')"
      and fr: "frame d (d h) (nodes m) (nodes m')"
      unfolding grown_def by simp_all
    from sn have "validContext m' \<lparr>head = Some sn, order = order ctx + 1\<rparr>"
      unfolding validContext_def by simp
    from backoffLoop_valid [OF inv' this bo] have "validContext m' ctx'" .
    with wf' frame_counts [OF fr] show ?thesis by blast
  qed
qed

lemma constructed_wellFormed:
  assumes "PPMLanguageModel v mo = Inr m"
  shows "wellFormed m \<and> validContext m (createContext m)"
proof -
  from assms have m: "m = \<lparr>vocab = v, maxOrder = mo, root = 0,
      rootContext = \<lparr>head = Some 0, order = 0\<rparr>,
      numNodes = 1, useExclusion = False, nodes = [Node]\<rparr>"
    unfolding PPMLanguageModel_def by (simp split: if_splits)
  have "winv [Node] 0 (\<lambda>_. 0)"
    unfolding winv_def okNode_def by (simp add: Node_def)
  moreover have "pending [Node] 0 = {}" unfolding pending_def by auto
  ultimately show ?thesis
    unfolding wellFormed_def validContext_def createContext_def m by auto
qed

lemma wellFormed_createContext:
  assumes "wellFormed m"
  shows "validContext m (createContext m)"
proof -
  from assms obtain d where "winv (nodes m) (root m) d" unfolding wellFormed_def by blast
  then have "root m < length (nodes m)" unfolding winv_def by blast
  with assms show ?thesis
    unfolding wellFormed_def validContext_def createContext_def by simp
qed

lemma advance_step:
  assumes wf: "wellFormed m" and v: "validContext m ctx"
    and run: "addSymbolToContext k m ctx s = Some (Inr (m', ctx'))"
  shows "m' = m \<and> validContext m ctx'"
proof -
  from wf obtain d where d: "winv (nodes m) (root m) d" unfolding wellFormed_def by blast
  from run have "m' = m \<and> (ctx' = ctx \<or> extendLoop k m ctx s = Some ctx')"
    unfolding addSymbolToContext_def by (auto split: if_splits option.splits)
  with v extendLoop_valid [OF d v] show ?thesis by blast
qed

lemma reachable_wellFormed:
  "reachable m ctx \<Longrightarrow> wellFormed m \<and> validContext m ctx"
proof (induction rule: reachable.induct)
  case (constructed v mo m)
  then show ?case by (rule constructed_wellFormed)
next
  case (created m ctx)
  then show ?case by (simp add: wellFormed_createContext)
next
  case (cloned m ctx)
  then show ?case by (simp add: validContext_def cloneContext_def)
next
  case (advanced m ctx k s m' ctx')
  with advance_step [of m ctx k s m' ctx'] show ?case by blast
next
  case (observed m ctx k s m' ctx')
  with observe_step [of m ctx k s m' ctx'] show ?case by blast
next
  case (kept m ctx ctx2 k s m' ctx')
  with observe_step [of m ctx k s m' ctx'] have "wellFormed m'"
    and "length (nodes m) \<le> length (nodes m')" by blast+
  moreover from kept.IH have "validContext m ctx2" by blast
  ultimately show ?case unfolding validContext_def by fastforce
next
  case (vocabGrown m ctx c)
  then show ?case unfolding wellFormed_def validContext_def by simp
next
  case (exclusionSet m ctx b)
  then show ?case unfolding wellFormed_def validContext_def by simp
qed

lemma reachable_order:
  "reachable m ctx \<Longrightarrow> 0 \<le> maxOrder m \<Longrightarrow> order ctx \<le> maxOrder m"
proof (induction rule: reachable.induct)
  case (constructed v mo m)
  then show ?case
    by (auto simp: PPMLanguageModel_def createContext_def split: if_splits)
next
  case (created m ctx)
  then have "wellFormed m" using reachable_wellFormed by blast
  with created show ?case by (simp add: wellFormed_def createContext_def)
next
  case (cloned m ctx)
  then show ?case by (simp add: cloneContext_def)
next
  case (advanced m ctx k s m' ctx')
  have ext: "order c' \<le> maxOrder m"
    if "extendLoop j m c s = Some c'" "0 \<le> maxOrder m" for j c c'
    using that
  proof (induction j arbitrary: c)
    case 0
    then show ?case by simp
  next
    case (Suc j)
    then show ?case
      by (auto split: option.splits if_splits)
  qed
  from advanced.hyps(2) have "m' = m \<and> (ctx' = ctx \<or> extendLoop k m ctx s = Some ctx')"
    unfolding addSymbolToContext_def by (auto split: if_splits option.splits)
  with advanced.IH advanced.prems ext show ?case by blast
next
  case (observed m ctx k s m' ctx')
  from addSymbolAndUpdate_cases [OF observed.hyps(2)] show ?case
  proof (elim disjE conjE exE)
    assume "m' = m" "ctx' = ctx"
    with observed.IH observed.prems show ?thesis by simp
  next
    fix h sn
    assume "backoffLoop m' \<lparr>head = Some sn, order = order ctx + 1\<rparr> = Inr ctx'"
    then show ?thesis by (rule backoffLoop_order)
  qed
next
  case (kept m ctx ctx2 k s m' ctx')
  from addSymbolAndUpdate_cases [OF kept.hyps(3)] have "maxOrder m' = maxOrder m"
    by (auto dest: addSymbolToNode_fields)
  with kept.IH(2) kept.prems show ?case by simp
next
  case (vocabGrown m ctx c)
  then show ?case by simp
next
  case (exclusionSet m ctx b)
  then show ?case by simp
qed

section \<open>The order of a context is the depth of its node\<close>

text \<open>
  The depth is determined by the store: it is the length of the backoff chain.
\<close>

lemma depth_unique:
  assumes "winv h r d1" and "winv h r d2" and "pending h r = {}"
  shows "a < length h \<Longrightarrow> d1 a = d2 a"
proof (induction "d1 a" arbitrary: a rule: less_induct)
  case less
  show ?case
  proof (cases "a = r")
    case True
    with assms(1,2) show ?thesis unfolding winv_def by simp
  next
    case False
    have "backoff (h ! a) \<noteq> None"
    proof
      assume "backoff (h ! a) = None"
      with False less.prems have "a \<in> pending h r" unfolding pending_def by simp
      with assms(3) show False by simp
    qed
    then obtain b where b: "backoff (h ! a) = Some b" by blast
    from backoff_range [OF assms(1) less.prems b] have 1: "b < length h" "d1 a = d1 b + 1"
      by blast+
    from backoff_range [OF assms(2) less.prems b] have 2: "d2 a = d2 b + 1" by blast
    from 1 have "d1 b < d1 a" by simp
    from less.hyps [OF this 1(1)] 1 2 show ?thesis by simp
  qed
qed

lemma observe_runs:
  assumes inv: "winv (nodes m) (root m) d" and p: "pending (nodes m) (root m) = {}"
    and h: "head ctx = Some h" "h < length (nodes m)"
    and s: "rootSymbol < s" "s < size_vocab (vocab m)"
  shows "\<exists>k m' c d'. grown m d h s m' c d' \<and> maxOrder m' = maxOrder m
           \<and> addSymbolAndUpdate k m ctx s =
               (case backoffLoop m' \<lparr>head = Some c, order = order ctx + 1\<rparr> of
                  Inl e \<Rightarrow> Some (Inl e) | Inr ctx' \<Rightarrow> Some (Inr (m', ctx')))"
proof -
  from p have "\<forall>x\<in>pending (nodes m) (root m). d h + 1 < d x" by simp
  from addSymbolToNode_grows [OF inv h(2) this, of s] obtain k0 m' c d'
    where r: "addSymbolToNode k0 m h s = Some (Inr (m', c))" and g: "grown m d h s m' c d'"
    by (elim exE conjE)
  from g have inv': "winv (nodes m') (root m) d'" and hl': "h < length (nodes m')"
    and only: "\<forall>j r. findChildWithSymbol j (nodes m') h s = Some r \<longrightarrow> r = Some c"
    using h(2) unfolding grown_def frame_def by auto
  let ?K = "max k0 (Suc (length (nodes m')))"
  have le: "k0 \<le> ?K" "Suc (length (nodes m')) \<le> ?K"
    by (rule max.cobounded1, rule max.cobounded2)
  from addSymbolToNode_mono [OF r le(1)]
  have r': "addSymbolToNode ?K m h s = Some (Inr (m', c))" .
  from findChild_enough [OF inv' hl' le(2)] only
  have fr: "findChildWithSymbol ?K (nodes m') h s = Some (Some c)" by blast
  from addSymbolToNode_fields [OF r] have mo: "maxOrder m' = maxOrder m" by blast
  from h(1) s r' fr have "addSymbolAndUpdate ?K m ctx s =
      (case backoffLoop m' \<lparr>head = Some c, order = order ctx + 1\<rparr> of
         Inl e \<Rightarrow> Some (Inl e) | Inr ctx' \<Rightarrow> Some (Inr (m', ctx')))"
    unfolding addSymbolAndUpdate_def by simp
  with g mo show ?thesis by blast
qed

lemma backoffLoop_depth:
  assumes inv: "winv (nodes m) (root m) d" and p: "pending (nodes m) (root m) = {}"
    and c: "c < length (nodes m)" "d c = Suc t" and t: "int t \<le> maxOrder m"
  shows "\<exists>ctx'. backoffLoop m \<lparr>head = Some c, order = int (Suc t)\<rparr> = Inr ctx'
           \<and> depthContext m d ctx'"
proof (cases "maxOrder m < int (Suc t)")
  case False
  then have "backoffLoop m \<lparr>head = Some c, order = int (Suc t)\<rparr>
      = Inr \<lparr>head = Some c, order = int (Suc t)\<rparr>"
    by (subst backoffLoop.simps) simp
  moreover from False c have "depthContext m d \<lparr>head = Some c, order = int (Suc t)\<rparr>"
    unfolding depthContext_def by simp
  ultimately show ?thesis by blast
next
  case True
  from inv have "d (root m) = 0" unfolding winv_def by blast
  with c have "c \<noteq> root m" by auto
  have "backoff (nodes m ! c) \<noteq> None"
  proof
    assume "backoff (nodes m ! c) = None"
    with \<open>c \<noteq> root m\<close> c(1) have "c \<in> pending (nodes m) (root m)"
      unfolding pending_def by simp
    with p show False by simp
  qed
  then obtain b where b: "backoff (nodes m ! c) = Some b" by blast
  from backoff_range [OF inv c(1) b] c(2) have bl: "b < length (nodes m)" and db: "d b = t"
    by simp_all
  have "backoffLoop m \<lparr>head = Some c, order = int (Suc t)\<rparr>
      = backoffLoop m \<lparr>head = Some b, order = int t\<rparr>"
    using True b by (subst backoffLoop.simps) simp
  also have "\<dots> = Inr \<lparr>head = Some b, order = int t\<rparr>"
    using t by (subst backoffLoop.simps) simp
  finally have "backoffLoop m \<lparr>head = Some c, order = int (Suc t)\<rparr>
      = Inr \<lparr>head = Some b, order = int t\<rparr>" .
  moreover from bl db t have "depthContext m d \<lparr>head = Some b, order = int t\<rparr>"
    unfolding depthContext_def by simp
  ultimately show ?thesis by blast
qed

lemma observe_depth:
  assumes inv: "winv (nodes m) (root m) d" and p: "pending (nodes m) (root m) = {}"
    and dc: "depthContext m d ctx"
    and s: "rootSymbol < s" "s < size_vocab (vocab m)"
  shows "\<exists>k m' ctx' d'. addSymbolAndUpdate k m ctx s = Some (Inr (m', ctx'))
           \<and> winv (nodes m') (root m') d' \<and> depthContext m' d' ctx'
           \<and> (\<forall>x<length (nodes m). d' x = d x)"
proof -
  from dc obtain h where h: "head ctx = Some h" "h < length (nodes m)" "order ctx = int (d h)"
    and ord: "order ctx \<le> maxOrder m"
    unfolding depthContext_def by blast
  from observe_runs [OF inv p h(1,2) s] obtain k m' c d'
    where g: "grown m d h s m' c d'" and mo: "maxOrder m' = maxOrder m"
      and run: "addSymbolAndUpdate k m ctx s =
               (case backoffLoop m' \<lparr>head = Some c, order = order ctx + 1\<rparr> of
                  Inl e \<Rightarrow> Some (Inl e) | Inr ctx' \<Rightarrow> Some (Inr (m', ctx')))"
    by (elim exE conjE)
  from g p have inv': "winv (nodes m') (root m') d'" and p': "pending (nodes m') (root m') = {}"
    and c: "c < length (nodes m')" "d' c = Suc (d h)"
    and old: "\<forall>x<length (nodes m). d' x = d x"
    unfolding grown_def by auto
  from ord h(3) mo have t: "int (d h) \<le> maxOrder m'" by simp
  from backoffLoop_depth [OF inv' p' c t] obtain ctx'
    where "backoffLoop m' \<lparr>head = Some c, order = int (Suc (d h))\<rparr> = Inr ctx'"
      and dc': "depthContext m' d' ctx'" by blast
  with h(3) have "backoffLoop m' \<lparr>head = Some c, order = order ctx + 1\<rparr> = Inr ctx'"
    by (simp add: add.commute)
  with run have "addSymbolAndUpdate k m ctx s = Some (Inr (m', ctx'))" by simp
  with inv' dc' old show ?thesis by blast
qed

lemma extendLoop_depth:
  assumes inv: "winv (nodes m) (root m) d" and mo: "0 \<le> maxOrder m"
  shows "head ctx = None \<or> (\<exists>a. head ctx = Some a \<and> a < length (nodes m) \<and> order ctx = int (d a))
     \<Longrightarrow> extendLoop k m ctx s = Some ctx' \<Longrightarrow> depthContext m d ctx'"
proof (induction k arbitrary: ctx)
  case 0
  then show ?case by simp
next
  case (Suc k)
  show ?case
  proof (cases "head ctx")
    case None
    with Suc.prems(2) have "ctx' = \<lparr>head = Some (root m), order = 0\<rparr>" by simp
    with inv mo show ?thesis unfolding depthContext_def winv_def by simp
  next
    case (Some a)
    with Suc.prems(1) have a: "a < length (nodes m)" "order ctx = int (d a)" by simp_all
    let ?up = "\<lparr>head = backoff (nodes m ! a), order = order ctx - 1\<rparr>"
    have vb: "head ?up = None
        \<or> (\<exists>b. head ?up = Some b \<and> b < length (nodes m) \<and> order ?up = int (d b))"
    proof (cases "backoff (nodes m ! a)")
      case None
      then show ?thesis by simp
    next
      case b: (Some b)
      from backoff_range [OF inv a(1) b] a(2) b show ?thesis by simp
    qed
    show ?thesis
    proof (cases "order ctx < maxOrder m")
      case False
      with Some Suc.prems(2) have "extendLoop k m ?up s = Some ctx'" by simp
      with vb show ?thesis by (rule Suc.IH)
    next
      case True
      from Some True Suc.prems(2) obtain fr
        where fr: "findChildWithSymbol k (nodes m) a s = Some fr"
        by (cases "findChildWithSymbol k (nodes m) a s") auto
      show ?thesis
      proof (cases fr)
        case None
        with fr Some True Suc.prems(2) have "extendLoop k m ?up s = Some ctx'" by simp
        with vb show ?thesis by (rule Suc.IH)
      next
        case c: (Some c)
        with fr Some True Suc.prems(2) have "ctx' = \<lparr>head = Some c, order = order ctx + 1\<rparr>"
          by simp
        moreover from findChild_range [OF inv a(1) fr [unfolded c]]
        have "c < length (nodes m)" "d c = d a + 1" by blast+
        ultimately show ?thesis using a(2) True unfolding depthContext_def by simp
      qed
    qed
  qed
qed

lemma observe_depth_partial:
  assumes inv: "winv (nodes m) (root m) d" and p: "pending (nodes m) (root m) = {}"
    and dc: "depthContext m d ctx"
    and run: "addSymbolAndUpdate k m ctx s = Some (Inr (m', ctx'))"
  shows "\<exists>d'. winv (nodes m') (root m') d' \<and> depthContext m' d' ctx'
           \<and> (\<forall>x<length (nodes m). d' x = d x) \<and> maxOrder m' = maxOrder m"
proof -
  from addSymbolAndUpdate_cases [OF run] show ?thesis
  proof (elim disjE conjE exE)
    assume "m' = m" "ctx' = ctx"
    with inv dc show ?thesis by blast
  next
    fix h sn
    assume h: "head ctx = Some h"
      and grow: "addSymbolToNode k m h s = Some (Inr (m', sn))"
      and bo: "backoffLoop m' \<lparr>head = Some sn, order = order ctx + 1\<rparr> = Inr ctx'"
    from dc h have hl: "h < length (nodes m)" and oh: "order ctx = int (d h)"
      and ord: "order ctx \<le> maxOrder m"
      unfolding depthContext_def by simp_all
    from p have "\<forall>x\<in>pending (nodes m) (root m). d h + 1 < d x" by simp
    from addSymbolToNode_result [OF inv hl this grow] obtain d'
      where g: "grown m d h s m' sn d'" by blast
    from g p have inv': "winv (nodes m') (root m') d'" and p': "pending (nodes m') (root m') = {}"
      and c: "sn < length (nodes m')" "d' sn = Suc (d h)"
      and old: "\<forall>x<length (nodes m). d' x = d x"
      unfolding grown_def by auto
    from addSymbolToNode_fields [OF grow] have mo: "maxOrder m' = maxOrder m" by blast
    from ord oh mo have t: "int (d h) \<le> maxOrder m'" by simp
    from backoffLoop_depth [OF inv' p' c t] obtain c2
      where "backoffLoop m' \<lparr>head = Some sn, order = int (Suc (d h))\<rparr> = Inr c2"
        and dc': "depthContext m' d' c2" by blast
    with oh bo have "c2 = ctx'" by (simp add: add.commute)
    with inv' dc' old mo show ?thesis by blast
  qed
qed

lemma depthContext_kept:
  assumes "depthContext m d ctx" and "\<forall>x<length (nodes m). d' x = d x"
    and "length (nodes m) \<le> length (nodes m')" and "maxOrder m' = maxOrder m"
  shows "depthContext m' d' ctx"
proof -
  from assms(1) obtain a where a: "head ctx = Some a" "a < length (nodes m)"
    "order ctx = int (d a)" and ord: "order ctx \<le> maxOrder m"
    unfolding depthContext_def by blast
  from a(2) assms(2) have "d' a = d a" by blast
  with a ord assms(3,4) show ?thesis unfolding depthContext_def by simp
qed

lemma reachable_depth:
  "reachable m ctx \<Longrightarrow> 0 \<le> maxOrder m
     \<Longrightarrow> \<exists>d. winv (nodes m) (root m) d \<and> depthContext m d ctx"
proof (induction rule: reachable.induct)
  case (constructed v mo m)
  then have m: "m = \<lparr>vocab = v, maxOrder = mo, root = 0,
      rootContext = \<lparr>head = Some 0, order = 0\<rparr>,
      numNodes = 1, useExclusion = False, nodes = [Node]\<rparr>"
    unfolding PPMLanguageModel_def by (simp split: if_splits)
  have "winv [Node] 0 (\<lambda>_. 0)"
    unfolding winv_def okNode_def by (simp add: Node_def)
  with constructed.prems show ?case
    unfolding depthContext_def createContext_def m by auto
next
  case (created m ctx)
  then obtain d where d: "winv (nodes m) (root m) d" by blast
  from created.hyps have "wellFormed m" using reachable_wellFormed by blast
  then have "createContext m = \<lparr>head = Some (root m), order = 0\<rparr>"
    unfolding wellFormed_def createContext_def by simp
  with d created.prems have "depthContext m d (createContext m)"
    unfolding depthContext_def winv_def by simp
  with d show ?case by blast
next
  case (cloned m ctx)
  then show ?case by (simp add: depthContext_def cloneContext_def)
next
  case (advanced m ctx k s m' ctx')
  from advanced.hyps(2) have eq: "m' = m"
    and c: "ctx' = ctx \<or> extendLoop k m ctx s = Some ctx'"
    unfolding addSymbolToContext_def by (auto split: if_splits option.splits)
  from advanced.IH advanced.prems eq obtain d
    where d: "winv (nodes m) (root m) d" and dc: "depthContext m d ctx" by blast
  from dc have "head ctx = None
      \<or> (\<exists>a. head ctx = Some a \<and> a < length (nodes m) \<and> order ctx = int (d a))"
    unfolding depthContext_def by blast
  from extendLoop_depth [OF d _ this] advanced.prems eq c dc
  have "depthContext m d ctx'" by blast
  with d eq show ?case by blast
next
  case (observed m ctx k s m' ctx')
  from addSymbolAndUpdate_cases [OF observed.hyps(2)] have mo: "maxOrder m' = maxOrder m"
    by (auto dest: addSymbolToNode_fields)
  with observed.IH observed.prems obtain d
    where d: "winv (nodes m) (root m) d" and dc: "depthContext m d ctx" by auto
  from observed.hyps(1) have "pending (nodes m) (root m) = {}"
    using reachable_wellFormed unfolding wellFormed_def by blast
  from observe_depth_partial [OF d this dc observed.hyps(2)] show ?case by blast
next
  case (kept m ctx ctx2 k s m' ctx')
  from addSymbolAndUpdate_cases [OF kept.hyps(3)] have mo: "maxOrder m' = maxOrder m"
    by (auto dest: addSymbolToNode_fields)
  with kept.IH kept.prems obtain d d2
    where d: "winv (nodes m) (root m) d" and dc: "depthContext m d ctx"
      and d2: "winv (nodes m) (root m) d2" and dc2: "depthContext m d2 ctx2" by auto
  from kept.hyps(1) have wf: "wellFormed m" and v: "validContext m ctx"
    using reachable_wellFormed by blast+
  then have p: "pending (nodes m) (root m) = {}" unfolding wellFormed_def by blast
  from observe_depth_partial [OF d p dc kept.hyps(3)] obtain d'
    where d': "winv (nodes m') (root m') d'" and old: "\<forall>x<length (nodes m). d' x = d x"
    by blast
  from observe_step [OF wf v kept.hyps(3)] have len: "length (nodes m) \<le> length (nodes m')"
    by blast
  have "\<forall>x<length (nodes m). d' x = d2 x"
    using old depth_unique [OF d d2 p] by simp
  from depthContext_kept [OF dc2 this len mo] d' show ?case by blast
next
  case (vocabGrown m ctx c)
  then show ?case by (simp add: depthContext_def)
next
  case (exclusionSet m ctx b)
  then show ?case by (simp add: depthContext_def)
qed

section \<open>The operations return\<close>

lemma extendLoop_total:
  assumes inv: "winv (nodes m) (root m) d"
  shows "validContext m ctx
     \<Longrightarrow> (case head ctx of None \<Rightarrow> 0 < k | Some a \<Rightarrow> length (nodes m) + d a + 2 \<le> k)
     \<Longrightarrow> \<exists>ctx'. extendLoop k m ctx s = Some ctx'"
proof (induction k arbitrary: ctx)
  case 0
  then show ?case by (simp split: option.splits)
next
  case (Suc k)
  show ?case
  proof (cases "head ctx")
    case None
    then show ?thesis by simp
  next
    case (Some a)
    with Suc.prems have a: "a < length (nodes m)" and k: "length (nodes m) + d a + 1 \<le> k"
      unfolding validContext_def by simp_all
    let ?up = "\<lparr>head = backoff (nodes m ! a), order = order ctx - 1\<rparr>"
    have vb: "validContext m ?up"
      unfolding validContext_def using backoff_range [OF inv a] by simp
    have kb: "case head ?up of None \<Rightarrow> 0 < k | Some b \<Rightarrow> length (nodes m) + d b + 2 \<le> k"
    proof (cases "backoff (nodes m ! a)")
      case None
      with k show ?thesis by simp
    next
      case b: (Some b)
      from backoff_range [OF inv a b] k b show ?thesis by simp
    qed
    from Suc.IH [OF vb kb] obtain cb where cb: "extendLoop k m ?up s = Some cb" by blast
    from k have "Suc (length (nodes m)) \<le> k" by simp
    from findChild_enough [OF inv a this] obtain fr
      where fr: "findChildWithSymbol k (nodes m) a s = Some fr" by blast
    from Some cb fr show ?thesis by (cases fr) simp_all
  qed
qed


section \<open>The search finds the child that carries the symbol\<close>

lemma onChain_None: "\<not> onChain h None c"
  by (auto elim: onChain.cases)

lemma onChain_Some: "onChain h (Some a) c \<longleftrightarrow> c = a \<or> onChain h (next (h ! a)) c"
  by (auto intro: onChain.intros elim: onChain.cases)

text \<open>
  What the search returns is a node of the chain that carries the symbol, and when it
  returns nothing no node of the chain carries the symbol.
\<close>

lemma findLoop_found:
  "findLoop k h cur s = Some (Some e) \<Longrightarrow> onChain h cur e \<and> symbol (h ! e) = s"
proof (induction k arbitrary: cur)
  case 0
  then show ?case by simp
next
  case (Suc k)
  show ?case
  proof (cases cur)
    case None
    with Suc.prems show ?thesis by simp
  next
    case (Some a)
    show ?thesis
    proof (cases "symbol (h ! a) = s")
      case True
      with Some Suc.prems have "e = a" by simp
      with True Some show ?thesis by (simp add: onChain.first)
    next
      case False
      with Some Suc.prems have "findLoop k h (next (h ! a)) s = Some (Some e)" by simp
      from Suc.IH [OF this] Some show ?thesis by (simp add: onChain.later)
    qed
  qed
qed

lemma findLoop_none:
  "findLoop k h cur s = Some None \<Longrightarrow> onChain h cur c \<Longrightarrow> symbol (h ! c) \<noteq> s"
proof (induction k arbitrary: cur)
  case 0
  then show ?case by simp
next
  case (Suc k)
  show ?case
  proof (cases cur)
    case None
    with Suc.prems(2) show ?thesis by (simp add: onChain_None)
  next
    case (Some a)
    with Suc.prems(1) have a: "symbol (h ! a) \<noteq> s"
      and rest: "findLoop k h (next (h ! a)) s = Some None"
      by (simp_all split: if_splits)
    from Suc.prems(2) Some have "c = a \<or> onChain h (next (h ! a)) c"
      by (simp add: onChain_Some)
    then show ?thesis
    proof
      assume "c = a"
      with a show ?thesis by simp
    next
      assume "onChain h (next (h ! a)) c"
      from Suc.IH [OF rest this] show ?thesis .
    qed
  qed
qed

lemma onChain_transfer:
  assumes ag: "\<forall>x<N. next (h' ! x) = next (h ! x)"
    and cl: "\<forall>x<N. \<forall>b. next (h ! x) = Some b \<longrightarrow> b < N"
  shows "onChain h cur c \<Longrightarrow> (\<forall>a. cur = Some a \<longrightarrow> a < N) \<Longrightarrow> onChain h' cur c \<and> c < N"
proof (induction rule: onChain.induct)
  case (first a)
  then show ?case by (simp add: onChain.first)
next
  case (later a c)
  then have a: "a < N" by simp
  with cl have "\<forall>b. next (h ! a) = Some b \<longrightarrow> b < N" by blast
  from later.IH [OF this] have "onChain h' (next (h ! a)) c" "c < N" by blast+
  moreover from ag a have "next (h' ! a) = next (h ! a)" by blast
  ultimately show ?case by (simp add: onChain.later)
qed

lemma onChain_transfer_back:
  assumes ag: "\<forall>x<N. next (h' ! x) = next (h ! x)"
    and cl: "\<forall>x<N. \<forall>b. next (h ! x) = Some b \<longrightarrow> b < N"
    and run: "onChain h' cur c" and cur: "\<forall>a. cur = Some a \<longrightarrow> a < N"
  shows "onChain h cur c \<and> c < N"
proof -
  from ag have ag': "\<forall>x<N. next (h ! x) = next (h' ! x)" by simp
  from ag cl have cl': "\<forall>x<N. \<forall>b. next (h' ! x) = Some b \<longrightarrow> b < N" by simp
  from onChain_transfer [OF ag' cl' run cur] show ?thesis .
qed

text \<open>
  When siblings carry different symbols, a chain has at most one node for a symbol.
\<close>

lemma onChain_unique:
  assumes ds: "distinctSiblings h"
    and cl: "\<forall>x<length h. \<forall>b. next (h ! x) = Some b \<longrightarrow> b < length h"
  shows "onChain h cur x \<Longrightarrow> onChain h cur e \<Longrightarrow> (\<forall>a. cur = Some a \<longrightarrow> a < length h)
     \<Longrightarrow> symbol (h ! x) = symbol (h ! e) \<Longrightarrow> x = e"
proof (induction rule: onChain.induct)
  case (first a)
  from first.prems(1) have "e = a \<or> onChain h (next (h ! a)) e" by (simp add: onChain_Some)
  then show ?case
  proof
    assume "e = a"
    then show ?thesis by simp
  next
    assume 2: "onChain h (next (h ! a)) e"
    from first.prems(2) have "a < length h" by simp
    with ds 2 have "symbol (h ! e) \<noteq> symbol (h ! a)" unfolding distinctSiblings_def by blast
    with first.prems(3) show ?thesis by simp
  qed
next
  case (later a c)
  from later.prems(2) have a: "a < length h" by simp
  with cl have nr: "\<forall>b. next (h ! a) = Some b \<longrightarrow> b < length h" by blast
  from later.prems(1) have "e = a \<or> onChain h (next (h ! a)) e" by (simp add: onChain_Some)
  then show ?case
  proof
    assume 1: "e = a"
    from ds a later.hyps have "symbol (h ! c) \<noteq> symbol (h ! a)"
      unfolding distinctSiblings_def by blast
    with 1 later.prems(3) show ?thesis by simp
  next
    assume "onChain h (next (h ! a)) e"
    from later.IH [OF this nr later.prems(3)] show ?thesis .
  qed
qed

section \<open>Siblings carry different symbols\<close>

lemma child_range:
  assumes "winv h r d" and "n < length h"
  shows "\<forall>a. child (h ! n) = Some a \<longrightarrow> a < length h"
proof -
  from assms have "okNode h d n" unfolding winv_def by blast
  then show ?thesis unfolding okNode_def by blast
qed

lemma distinct_fields:
  assumes cl: "\<forall>x<length h. \<forall>b. next (h ! x) = Some b \<longrightarrow> b < length h"
    and len: "length h' = length h"
    and ag: "\<forall>x<length h. next (h' ! x) = next (h ! x) \<and> symbol (h' ! x) = symbol (h ! x)"
    and ds: "distinctSiblings h"
  shows "distinctSiblings h'"
  unfolding distinctSiblings_def
proof (intro allI impI)
  fix a c assume a: "a < length h'" and run: "onChain h' (next (h' ! a)) c"
  from a len have al: "a < length h" by simp
  from ag have agn: "\<forall>x<length h. next (h' ! x) = next (h ! x)" by blast
  from al ag have na: "next (h' ! a) = next (h ! a)" by blast
  from cl al have cur: "\<forall>b. next (h ! a) = Some b \<longrightarrow> b < length h" by blast
  from onChain_transfer_back [OF agn cl run [unfolded na] cur]
  have "onChain h (next (h ! a)) c" and c: "c < length h" by blast+
  with ds al have "symbol (h ! c) \<noteq> symbol (h ! a)" unfolding distinctSiblings_def by blast
  with ag al c show "symbol (h' ! c) \<noteq> symbol (h' ! a)" by simp
qed

lemma distinct_bump:
  assumes "winv h r d" and "distinctSiblings h"
  shows "distinctSiblings (h[c := (h ! c)\<lparr>count := increment (count (h ! c))\<rparr>])"
proof (rule distinct_fields [OF next_closed [OF assms(1)] _ _ assms(2)])
  show "length (h[c := (h ! c)\<lparr>count := increment (count (h ! c))\<rparr>]) = length h" by simp
  show "\<forall>x<length h. next (h[c := (h ! c)\<lparr>count := increment (count (h ! c))\<rparr>] ! x) = next (h ! x)
      \<and> symbol (h[c := (h ! c)\<lparr>count := increment (count (h ! c))\<rparr>] ! x) = symbol (h ! x)"
  proof (intro allI impI)
    fix x assume "x < length h"
    then show "next (h[c := (h ! c)\<lparr>count := increment (count (h ! c))\<rparr>] ! x) = next (h ! x)
      \<and> symbol (h[c := (h ! c)\<lparr>count := increment (count (h ! c))\<rparr>] ! x) = symbol (h ! x)"
      by (cases "x = c") simp_all
  qed
qed

lemma distinct_setBackoff:
  assumes "winv h r d" and "distinctSiblings h"
  shows "distinctSiblings (h[c := (h ! c)\<lparr>backoff := Some b\<rparr>])"
proof (rule distinct_fields [OF next_closed [OF assms(1)] _ _ assms(2)])
  show "length (h[c := (h ! c)\<lparr>backoff := Some b\<rparr>]) = length h" by simp
  show "\<forall>x<length h. next (h[c := (h ! c)\<lparr>backoff := Some b\<rparr>] ! x) = next (h ! x)
      \<and> symbol (h[c := (h ! c)\<lparr>backoff := Some b\<rparr>] ! x) = symbol (h ! x)"
  proof (intro allI impI)
    fix x assume "x < length h"
    then show "next (h[c := (h ! c)\<lparr>backoff := Some b\<rparr>] ! x) = next (h ! x)
      \<and> symbol (h[c := (h ! c)\<lparr>backoff := Some b\<rparr>] ! x) = symbol (h ! x)"
      by (cases "x = c") simp_all
  qed
qed

lemma linked_fields:
  assumes "n < length h" and "x < length h"
  shows "next (linked h n s ! x) = next (h ! x) \<and> symbol (linked h n s ! x) = symbol (h ! x)
       \<and> backoff (linked h n s ! x) = backoff (h ! x) \<and> count (linked h n s ! x) = count (h ! x)"
  using assms by (cases "x = n") (simp_all add: linked_parent linked_other)

lemma distinct_linked:
  assumes inv: "winv h r d" and n: "n < length h" and ds: "distinctSiblings h"
    and none: "\<forall>c. onChain h (child (h ! n)) c \<longrightarrow> symbol (h ! c) \<noteq> s"
  shows "distinctSiblings (linked h n s)"
  unfolding distinctSiblings_def
proof (intro allI impI)
  let ?h1 = "linked h n s"
  fix a c assume a: "a < length ?h1" and run: "onChain ?h1 (next (?h1 ! a)) c"
  have cl: "\<forall>x<length h. \<forall>b. next (h ! x) = Some b \<longrightarrow> b < length h"
    using inv by (rule next_closed)
  have agn: "\<forall>x<length h. next (?h1 ! x) = next (h ! x)"
    using linked_fields [OF n] by blast
  from a have "a < Suc (length h)" by (simp add: length_linked)
  then consider "a = length h" | "a < length h" by linarith
  then show "symbol (?h1 ! c) \<noteq> symbol (?h1 ! a)"
  proof cases
    case 1
    with n have new: "?h1 ! a = Node\<lparr>symbol := s, next := child (h ! n)\<rparr>"
      by (simp add: linked_new)
    with run have r: "onChain ?h1 (child (h ! n)) c" by simp
    from onChain_transfer_back [OF agn cl r child_range [OF inv n]]
    have "onChain h (child (h ! n)) c" and c: "c < length h" by blast+
    with none have "symbol (h ! c) \<noteq> s" by blast
    with linked_fields [OF n c] new show ?thesis by simp
  next
    case 2
    with agn have na: "next (?h1 ! a) = next (h ! a)" by blast
    from cl 2 have cur: "\<forall>b. next (h ! a) = Some b \<longrightarrow> b < length h" by blast
    from onChain_transfer_back [OF agn cl run [unfolded na] cur]
    have "onChain h (next (h ! a)) c" and c: "c < length h" by blast+
    with ds 2 have "symbol (h ! c) \<noteq> symbol (h ! a)" unfolding distinctSiblings_def by blast
    with linked_fields [OF n c] linked_fields [OF n 2] show ?thesis by simp
  qed
qed

text \<open>
  The store in which the new child of \<open>n\<close> is linked is ready for the recursive call on
  the backoff of \<open>n\<close>: well formed, with the pending nodes more than one level below
  that backoff.
\<close>

lemma linked_ready:
  assumes inv: "winv (nodes m) (root m) d" and n: "n < length (nodes m)"
    and pc: "\<forall>x\<in>pending (nodes m) (root m). d n + 1 < d x"
    and b: "backoff (nodes m ! n) = Some b"
  shows "winv (nodes (linkChild m n s)) (root (linkChild m n s)) (d(length (nodes m) := d n + 1))
       \<and> b < length (nodes (linkChild m n s))
       \<and> (\<forall>x\<in>pending (nodes (linkChild m n s)) (root (linkChild m n s)).
             (d(length (nodes m) := d n + 1)) b + 1 < (d(length (nodes m) := d n + 1)) x)"
proof -
  let ?a = "length (nodes m)" and ?m1 = "linkChild m n s"
  let ?d1 = "d(?a := d n + 1)"
  have h1: "nodes ?m1 = linked (nodes m) n s" by (rule nodes_linkChild)
  from backoff_range [OF inv n b] have bl: "b < ?a" and db: "d n = d b + 1" by blast+
  have d1b: "?d1 b = d b" using bl by simp
  have 1: "winv (nodes ?m1) (root ?m1) ?d1"
    using winv_linked [OF inv n, of s] by (simp add: h1 root_linkChild)
  have 2: "b < length (nodes ?m1)" using bl by (simp add: h1 length_linked)
  have 3: "\<forall>x\<in>pending (nodes ?m1) (root ?m1). ?d1 b + 1 < ?d1 x"
  proof
    fix x assume "x \<in> pending (nodes ?m1) (root ?m1)"
    with pending_linked [OF n, of s "root m"]
    have "x = ?a \<or> x \<in> pending (nodes m) (root m)" by (auto simp: h1 root_linkChild)
    then show "?d1 b + 1 < ?d1 x"
    proof
      assume "x = ?a"
      with d1b db show ?thesis by simp
    next
      assume x: "x \<in> pending (nodes m) (root m)"
      then have "x < ?a" unfolding pending_def by simp
      moreover from x pc have "d n + 1 < d x" by blast
      ultimately show ?thesis using d1b db by simp
    qed
  qed
  from 1 2 3 show ?thesis by blast
qed

lemma addSymbolToNode_distinct:
  "winv (nodes m) (root m) d \<Longrightarrow> n < length (nodes m)
     \<Longrightarrow> \<forall>x\<in>pending (nodes m) (root m). d n + 1 < d x
     \<Longrightarrow> distinctSiblings (nodes m)
     \<Longrightarrow> addSymbolToNode k m n s = Some (Inr (m', c))
     \<Longrightarrow> distinctSiblings (nodes m')"
proof (induction k arbitrary: m n d m' c)
  case 0
  then show ?case by simp
next
  case (Suc k)
  note inv = Suc.prems(1) and n = Suc.prems(2) and pc = Suc.prems(3)
    and ds = Suc.prems(4) and run = Suc.prems(5)
  from run obtain fr where fr: "findChildWithSymbol k (nodes m) n s = Some fr"
    by (cases "findChildWithSymbol k (nodes m) n s") auto
  show ?case
  proof (cases fr)
    case (Some e)
    with fr run have "m' = bumpCount m e" by auto
    with distinct_bump [OF inv ds] show ?thesis by (simp add: bumpCount_def)
  next
    case None
    let ?m1 = "linkChild m n s" and ?a = "length (nodes m)"
    have h1: "nodes ?m1 = linked (nodes m) n s" by (rule nodes_linkChild)
    from fr None have "\<forall>c. onChain (nodes m) (child (nodes m ! n)) c \<longrightarrow> symbol (nodes m ! c) \<noteq> s"
      unfolding findChildWithSymbol_def by (blast dest: findLoop_none)
    from distinct_linked [OF inv n ds this] have ds1: "distinctSiblings (nodes ?m1)"
      by (simp add: h1)
    have inv1: "winv (nodes ?m1) (root m) (d(?a := d n + 1))"
      using winv_linked [OF inv n, of s] by (simp add: h1)
    show ?thesis
    proof (cases "n = root m")
      case True
      with None fr run have "m' = setBackoff ?m1 ?a (root m)" by (auto simp: Let_def)
      with distinct_setBackoff [OF inv1 ds1] show ?thesis by (simp add: nodes_setBackoff)
    next
      case False
      with None fr run obtain b m2 r
        where b1: "backoff (nodes ?m1 ! n) = Some b"
          and rec: "addSymbolToNode k ?m1 b s = Some (Inr (m2, r))"
          and m': "m' = setBackoff m2 ?a r"
        by (auto simp: Let_def split: option.splits sum.splits)
      from b1 n have b: "backoff (nodes m ! n) = Some b" by (simp add: h1 linked_parent)
      from linked_ready [OF inv n pc b, of s]
      have i1: "winv (nodes ?m1) (root ?m1) (d(?a := d n + 1))"
        and bl: "b < length (nodes ?m1)"
        and p1: "\<forall>x\<in>pending (nodes ?m1) (root ?m1).
             (d(?a := d n + 1)) b + 1 < (d(?a := d n + 1)) x"
        by blast+
      from Suc.IH [OF i1 bl p1 ds1 rec] have ds2: "distinctSiblings (nodes m2)" .
      from addSymbolToNode_result [OF i1 bl p1 rec] obtain d2
        where "grown ?m1 (d(?a := d n + 1)) b s m2 r d2" by blast
      then have "winv (nodes m2) (root ?m1) d2" unfolding grown_def by blast
      from distinct_setBackoff [OF this ds2] m' show ?thesis by (simp add: nodes_setBackoff)
    qed
  qed
qed

lemma reachable_distinct: "reachable m ctx \<Longrightarrow> distinctSiblings (nodes m)"
proof (induction rule: reachable.induct)
  case (constructed v mo m)
  then have "nodes m = [Node]"
    unfolding PPMLanguageModel_def by (auto split: if_splits)
  then show ?case
    unfolding distinctSiblings_def by (simp add: Node_def onChain_None)
next
  case (observed m ctx k s m' ctx')
  from observed.hyps(1) have wf: "wellFormed m" and v: "validContext m ctx"
    using reachable_wellFormed by blast+
  from wf obtain d where d: "winv (nodes m) (root m) d" and p: "pending (nodes m) (root m) = {}"
    unfolding wellFormed_def by blast
  from addSymbolAndUpdate_cases [OF observed.hyps(2)] show ?case
  proof (elim disjE conjE exE)
    assume "m' = m"
    with observed.IH show ?thesis by simp
  next
    fix h sn
    assume h: "head ctx = Some h" and grow: "addSymbolToNode k m h s = Some (Inr (m', sn))"
    from h v have hl: "h < length (nodes m)" unfolding validContext_def by simp
    from p have "\<forall>x\<in>pending (nodes m) (root m). d h + 1 < d x" by simp
    from addSymbolToNode_distinct [OF d hl this observed.IH grow] show ?thesis .
  qed
next
  case (kept m ctx ctx2 k s m' ctx')
  from kept.hyps(1) have wf: "wellFormed m" and v: "validContext m ctx"
    using reachable_wellFormed by blast+
  from wf obtain d where d: "winv (nodes m) (root m) d" and p: "pending (nodes m) (root m) = {}"
    unfolding wellFormed_def by blast
  from addSymbolAndUpdate_cases [OF kept.hyps(3)] show ?case
  proof (elim disjE conjE exE)
    assume "m' = m"
    with kept.IH show ?thesis by simp
  next
    fix h sn
    assume h: "head ctx = Some h" and grow: "addSymbolToNode k m h s = Some (Inr (m', sn))"
    from h v have hl: "h < length (nodes m)" unfolding validContext_def by simp
    from p have "\<forall>x\<in>pending (nodes m) (root m). d h + 1 < d x" by simp
    from addSymbolToNode_distinct [OF d hl this kept.IH(1) grow] show ?thesis .
  qed
next
  case (advanced m ctx k s m' ctx')
  from advanced.hyps(2) have "m' = m"
    unfolding addSymbolToContext_def by (auto split: if_splits option.splits)
  with advanced.IH show ?case by simp
qed simp_all

text \<open>
  Every store on which \<open>addSymbolToNode_\<close> runs is well formed, its pending nodes lie
  more than one level below the node of the call, and its siblings carry different
  symbols.
\<close>

lemma applied_inv:
  "applied m n s \<Longrightarrow> n < length (nodes m)
     \<and> (\<exists>d. winv (nodes m) (root m) d \<and> (\<forall>x\<in>pending (nodes m) (root m). d n + 1 < d x))
     \<and> distinctSiblings (nodes m)"
proof (induction rule: applied.induct)
  case (called m ctx n s)
  then have "wellFormed m" using reachable_wellFormed by blast
  then obtain d where "winv (nodes m) (root m) d" and "pending (nodes m) (root m) = {}"
    unfolding wellFormed_def by blast
  then have "winv (nodes m) (root m) d \<and> (\<forall>x\<in>pending (nodes m) (root m). d n + 1 < d x)"
    by simp
  with called reachable_distinct show ?case by blast
next
  case (recursive m n s k b)
  then obtain d where n: "n < length (nodes m)" and inv: "winv (nodes m) (root m) d"
    and pc: "\<forall>x\<in>pending (nodes m) (root m). d n + 1 < d x"
    and ds: "distinctSiblings (nodes m)" by blast
  have h1: "nodes (linkChild m n s) = linked (nodes m) n s" by (rule nodes_linkChild)
  from recursive.hyps(4) n have b: "backoff (nodes m ! n) = Some b"
    by (simp add: h1 linked_parent)
  from recursive.hyps(2)
  have "\<forall>c. onChain (nodes m) (child (nodes m ! n)) c \<longrightarrow> symbol (nodes m ! c) \<noteq> s"
    unfolding findChildWithSymbol_def by (blast dest: findLoop_none)
  from distinct_linked [OF inv n ds this] have "distinctSiblings (nodes (linkChild m n s))"
    by (simp add: h1)
  with linked_ready [OF inv n pc b, of s] show ?case by blast
qed

text \<open>
  The recursive call on the backoff touches neither the node just created nor the link
  to it.
\<close>

lemma new_node_kept:
  assumes inv: "winv (nodes m) (root m) d" and n: "n < length (nodes m)"
    and pc: "\<forall>x\<in>pending (nodes m) (root m). d n + 1 < d x"
    and b: "backoff (nodes m ! n) = Some b"
    and run: "addSymbolToNode k (linkChild m n s) b s = Some (Inr (m2, r))"
  shows "nodes m2 ! length (nodes m) = Node\<lparr>symbol := s, next := child (nodes m ! n)\<rparr>
       \<and> child (nodes m2 ! n) = Some (length (nodes m))
       \<and> length (nodes m) < length (nodes m2)"
proof -
  let ?h = "nodes m" and ?a = "length (nodes m)" and ?m1 = "linkChild m n s"
  let ?d1 = "d(?a := d n + 1)" and ?h1 = "linked (nodes m) n s"
  have h1: "nodes ?m1 = ?h1" by (rule nodes_linkChild)
  from backoff_range [OF inv n b] have bl: "b < ?a" and db: "d n = d b + 1" by blast+
  have d1b: "?d1 b = d b" using bl by simp
  from linked_ready [OF inv n pc b, of s]
  have inv1: "winv (nodes ?m1) (root ?m1) ?d1" and bl1: "b < length (nodes ?m1)"
    and p1: "\<forall>x\<in>pending (nodes ?m1) (root ?m1). ?d1 b + 1 < ?d1 x"
    by blast+
  from addSymbolToNode_result [OF inv1 bl1 p1 run] obtain d2
    where g: "grown ?m1 ?d1 b s m2 r d2" by blast
  then have fr: "frame ?d1 (?d1 b) ?h1 (nodes m2)" unfolding grown_def by (simp add: h1)
  have al: "?a < length ?h1" and nl: "n < length ?h1" using n by (simp_all add: length_linked)
  have da: "?d1 b + 1 < ?d1 ?a" using d1b db by simp
  have dn: "?d1 b < ?d1 n" using d1b db n by simp
  from fr al da have fa: "next (nodes m2 ! ?a) = next (?h1 ! ?a)"
    "symbol (nodes m2 ! ?a) = symbol (?h1 ! ?a)" "backoff (nodes m2 ! ?a) = backoff (?h1 ! ?a)"
    "child (nodes m2 ! ?a) = child (?h1 ! ?a)" "count (nodes m2 ! ?a) = count (?h1 ! ?a)"
    unfolding frame_def by simp_all
  then have "nodes m2 ! ?a = ?h1 ! ?a" by (intro node.equality) simp_all
  then have 1: "nodes m2 ! ?a = Node\<lparr>symbol := s, next := child (?h ! n)\<rparr>"
    using n by (simp add: linked_new)
  from fr nl dn have "child (nodes m2 ! n) = child (?h1 ! n)" unfolding frame_def by simp
  then have 2: "child (nodes m2 ! n) = Some ?a" using n by (simp add: linked_parent)
  from fr have 3: "?a < length (nodes m2)" unfolding frame_def by (simp add: length_linked)
  from 1 2 3 show ?thesis by blast
qed

section \<open>The example states are reachable\<close>

lemma exampleModel_constructed: "PPMLanguageModel exampleVocab 2 = Inr exampleModel"
  by (simp add: PPMLanguageModel_def exampleModel_def exampleVocab_def size_vocab_def)

lemma exampleContext_created: "createContext exampleModel = exampleContext"
  by (simp add: createContext_def exampleModel_def exampleContext_def)

lemma example_reachable: "reachable exampleModel exampleContext"
  using reachable.constructed [OF exampleModel_constructed]
  by (simp add: exampleContext_created)

lemma trained_run:
  "(case addSymbolAndUpdate 3 exampleModel exampleContext 1 of
      Some (Inr (m, ctx)) \<Rightarrow> addSymbolAndUpdate 3 m ctx 1
    | _ \<Rightarrow> None) = Some (Inr (trainedModel, trainedContext))"
  by code_simp

lemma trained_reachable: "reachable trainedModel trainedContext"
proof -
  from trained_run obtain m ctx
    where 1: "addSymbolAndUpdate 3 exampleModel exampleContext 1 = Some (Inr (m, ctx))"
      and 2: "addSymbolAndUpdate 3 m ctx 1 = Some (Inr (trainedModel, trainedContext))"
    by (auto split: option.splits sum.splits)
  from reachable.observed [OF example_reachable 1] have "reachable m ctx" .
  from reachable.observed [OF this 2] show ?thesis .
qed

lemma observed_run:
  "addSymbolAndUpdate 6 trainedModel trainedContext 2
     = Some (Inr (observedModel, \<lparr>head = Some 4, order = 2\<rparr>))"
  by code_simp


lemma countModel_first:
  "addSymbolAndUpdate 3 exampleModel exampleContext 1
     = Some (Inr (countModel 1, \<lparr>head = Some 1, order = 1\<rparr>))"
  by code_simp

lemma countModel_next:
  assumes "c < 9007199254740992"
  shows "addSymbolAndUpdate 3 (countModel c) exampleContext 1
     = Some (Inr (countModel (c + 1), \<lparr>head = Some 1, order = 1\<rparr>))"
proof -
  have f: "findChildWithSymbol 2 (nodes (countModel c)) 0 1 = Some (Some 1)"
    by (simp add: findChildWithSymbol_def countModel_def eval_nat_numeral)
  have g: "addSymbolToNode 3 (countModel c) 0 1 = Some (Inr (countModel (c + 1), 1))"
    using f assms
    by (simp add: eval_nat_numeral bumpCount_def increment_def countModel_def
        findChildWithSymbol_def)
  have f': "findChildWithSymbol 3 (nodes (countModel (c + 1))) 0 1 = Some (Some 1)"
    by (simp add: findChildWithSymbol_def countModel_def eval_nat_numeral)
  have b: "backoffLoop (countModel (c + 1)) \<lparr>head = Some 1, order = 1\<rparr>
      = Inr \<lparr>head = Some 1, order = 1\<rparr>"
    by (subst backoffLoop.simps) (simp add: countModel_def)
  then have b': "backoffLoop (countModel (c + 1)) \<lparr>head = Some (Suc 0), order = 1\<rparr>
      = Inr \<lparr>head = Some (Suc 0), order = 1\<rparr>"
    by simp
  have v: "size_vocab (vocab (countModel c)) = 3"
    by (simp add: countModel_def exampleVocab_def size_vocab_def)
  show ?thesis
    unfolding addSymbolAndUpdate_def
    by (simp add: rootSymbol_def v exampleContext_def g f' b')
qed

lemma countModel_context: "createContext (countModel c) = exampleContext"
  by (simp add: createContext_def countModel_def exampleContext_def)

text \<open>
  Every count from 1 to \<open>2^53\<close> is reached, by observing \<open>A\<close> once more.
\<close>

lemma countModel_reachable:
  "1 \<le> c \<Longrightarrow> c \<le> 9007199254740992 \<Longrightarrow> reachable (countModel c) exampleContext"
proof (induction c rule: int_ge_induct)
  case base
  from reachable.observed [OF example_reachable countModel_first]
  have "reachable (countModel 1) \<lparr>head = Some 1, order = 1\<rparr>" .
  from reachable.created [OF this] show ?case by (simp add: countModel_context)
next
  case (step i)
  then have r: "reachable (countModel i) exampleContext" and i: "i < 9007199254740992"
    by simp_all
  from reachable.observed [OF r countModel_next [OF i]]
  have "reachable (countModel (i + 1)) \<lparr>head = Some 1, order = 1\<rparr>" .
  from reachable.created [OF this] show ?case by (simp add: countModel_context)
qed

lemma saturated_reachable: "reachable saturatedModel exampleContext"
  unfolding saturatedModel_def by (rule countModel_reachable) simp_all

lemma grown_run: "addSymbolToNode 6 trainedModel 1 2 = Some (Inr (grownModel, 3))"
  by code_simp

lemma bumped_run: "addSymbolToNode 3 trainedModel 0 1 = Some (Inr (bumpedModel, 1))"
  by code_simp

section \<open>Growing a node (addSymbolToNode)\<close>

text \<open>
  C2, amended. On every store \<open>m\<close> on which \<open>addSymbolToNode_\<close> runs (at a node \<open>n\<close> of
  a reachable model, or in a recursive call) and for every symbol \<open>s\<close>, the call
  returns, with the same result for every fuel that suffices. If \<open>n\<close> has a child for
  \<open>s\<close>, there is exactly one such child \<open>e\<close>; the result is \<open>e\<close>, and the model differs
  from the old one in the count of \<open>e\<close> alone, which is one higher when it was below
  \<open>2^53\<close> and unchanged when it was \<open>2^53\<close> (no node is created, no other count
  changes). If no child of \<open>n\<close> carries \<open>s\<close>, the result is a new node, with count 1
  and symbol \<open>s\<close>, linked as the first child of \<open>n\<close> in front of the former children.
  When \<open>n\<close> is the root, its backoff is the root and nothing else changes. Otherwise
  \<open>addSymbolToNode_\<close> is applied to the backoff of \<open>n\<close> and \<open>s\<close> in the store with the
  new node linked; the node it returns is the backoff of the new node, and the
  resulting model is the one the recursive call returns with that backoff set.
\<close>

theorem growNode_behaviour:
  assumes "applied m n s"
  shows "\<exists>k fr m' c.
      findChildWithSymbol k (nodes m) n s = Some fr
    \<and> addSymbolToNode (Suc k) m n s = Some (Inr (m', c))
    \<and> (\<forall>k' res. addSymbolToNode k' m n s = Some res \<longrightarrow> res = Inr (m', c))
    \<and> (case fr of
          Some e \<Rightarrow>
            isChild (nodes m) n e \<and> symbol (nodes m ! e) = s
          \<and> (\<forall>x. isChild (nodes m) n x \<and> symbol (nodes m ! x) = s \<longrightarrow> x = e)
          \<and> c = e
          \<and> m' = m\<lparr>nodes := (nodes m)[e := (nodes m ! e)\<lparr>count :=
                    (if count (nodes m ! e) < 9007199254740992 then count (nodes m ! e) + 1
                     else count (nodes m ! e))\<rparr>]\<rparr>
        | None \<Rightarrow>
            (\<forall>x. isChild (nodes m) n x \<longrightarrow> symbol (nodes m ! x) \<noteq> s)
          \<and> c = length (nodes m) \<and> length (nodes m) < length (nodes m')
          \<and> count (nodes m' ! c) = 1 \<and> symbol (nodes m' ! c) = s
          \<and> child (nodes m' ! c) = None
          \<and> next (nodes m' ! c) = child (nodes m ! n) \<and> child (nodes m' ! n) = Some c
          \<and> isChild (nodes m') n c
          \<and> (if n = root m
              then backoff (nodes m' ! c) = Some (root m)
                 \<and> m' = setBackoff (linkChild m n s) c (root m)
              else (\<exists>b m2 r. backoff (nodes m ! n) = Some b
                     \<and> applied (linkChild m n s) b s
                     \<and> addSymbolToNode k (linkChild m n s) b s = Some (Inr (m2, r))
                     \<and> backoff (nodes m' ! c) = Some r
                     \<and> m' = setBackoff m2 c r)))"
proof -
  let ?h = "nodes m" and ?a = "length (nodes m)" and ?m1 = "linkChild m n s"
  from applied_inv [OF assms] obtain d
    where n: "n < length (nodes m)" and inv: "winv (nodes m) (root m) d"
      and pc: "\<forall>x\<in>pending (nodes m) (root m). d n + 1 < d x"
      and ds: "distinctSiblings (nodes m)" by blast
  from addSymbolToNode_grows [OF inv n pc, of s] obtain k0 m' c
    where r0: "addSymbolToNode k0 m n s = Some (Inr (m', c))" by blast
  from findChild_total [OF inv n, of s] obtain fr
    where fr0: "findChildWithSymbol (Suc ?a) ?h n s = Some fr" by blast
  let ?k = "max k0 (Suc ?a)"
  have le: "k0 \<le> Suc ?k" "Suc ?a \<le> ?k" by simp_all
  from addSymbolToNode_mono [OF r0 le(1)]
  have run: "addSymbolToNode (Suc ?k) m n s = Some (Inr (m', c))" .
  from fr0 have "findLoop (Suc ?a) ?h (child (?h ! n)) s = Some fr"
    unfolding findChildWithSymbol_def .
  from findLoop_mono [OF this le(2)] have frl: "findLoop ?k ?h (child (?h ! n)) s = Some fr" .
  then have fr: "findChildWithSymbol ?k ?h n s = Some fr"
    unfolding findChildWithSymbol_def .
  have uniq: "res = Inr (m', c)" if "addSymbolToNode k' m n s = Some res" for k' res
  proof -
    have "k' \<le> max k' k0" "k0 \<le> max k' k0" by simp_all
    from addSymbolToNode_mono [OF that this(1)] addSymbolToNode_mono [OF r0 this(2)]
    show ?thesis by simp
  qed
  have shape: "case fr of
          Some e \<Rightarrow>
            isChild (nodes m) n e \<and> symbol (nodes m ! e) = s
          \<and> (\<forall>x. isChild (nodes m) n x \<and> symbol (nodes m ! x) = s \<longrightarrow> x = e)
          \<and> c = e
          \<and> m' = m\<lparr>nodes := (nodes m)[e := (nodes m ! e)\<lparr>count :=
                    (if count (nodes m ! e) < 9007199254740992 then count (nodes m ! e) + 1
                     else count (nodes m ! e))\<rparr>]\<rparr>
        | None \<Rightarrow>
            (\<forall>x. isChild (nodes m) n x \<longrightarrow> symbol (nodes m ! x) \<noteq> s)
          \<and> c = length (nodes m) \<and> length (nodes m) < length (nodes m')
          \<and> count (nodes m' ! c) = 1 \<and> symbol (nodes m' ! c) = s
          \<and> child (nodes m' ! c) = None
          \<and> next (nodes m' ! c) = child (nodes m ! n) \<and> child (nodes m' ! n) = Some c
          \<and> isChild (nodes m') n c
          \<and> (if n = root m
              then backoff (nodes m' ! c) = Some (root m)
                 \<and> m' = setBackoff (linkChild m n s) c (root m)
              else (\<exists>b m2 r. backoff (nodes m ! n) = Some b
                     \<and> applied (linkChild m n s) b s
                     \<and> addSymbolToNode ?k (linkChild m n s) b s = Some (Inr (m2, r))
                     \<and> backoff (nodes m' ! c) = Some r
                     \<and> m' = setBackoff m2 c r))"
  proof (cases fr)
    case (Some e)
    from findLoop_found [OF frl [unfolded Some]]
    have e: "isChild ?h n e" "symbol (?h ! e) = s" unfolding isChild_def by blast+
    have only: "x = e" if "isChild ?h n x \<and> symbol (?h ! x) = s" for x
    proof -
      from that e have "onChain ?h (child (?h ! n)) x" "onChain ?h (child (?h ! n)) e"
        "symbol (?h ! x) = symbol (?h ! e)" unfolding isChild_def by simp_all
      from onChain_unique [OF ds next_closed [OF inv] this(1,2) child_range [OF inv n] this(3)]
      show ?thesis .
    qed
    from Some run fr have ce: "c = e" and "m' = bumpCount m e" by auto
    then have inc: "m' = m\<lparr>nodes := (nodes m)[e := (nodes m ! e)\<lparr>count :=
                    (if count (nodes m ! e) < 9007199254740992 then count (nodes m ! e) + 1
                     else count (nodes m ! e))\<rparr>]\<rparr>"
      by (simp add: bumpCount_def increment_def)
    from only have "\<forall>x. isChild (nodes m) n x \<and> symbol (nodes m ! x) = s \<longrightarrow> x = e" by blast
    with e ce inc show ?thesis unfolding Some option.case by (intro conjI)
  next
    case None
    have h1: "nodes ?m1 = linked ?h n s" by (rule nodes_linkChild)
    from findLoop_none [OF frl [unfolded None]]
    have none: "\<forall>x. isChild ?h n x \<longrightarrow> symbol (?h ! x) \<noteq> s" unfolding isChild_def by blast
    show ?thesis
    proof (cases "n = root m")
      case True
      with run fr None have m': "m' = setBackoff ?m1 ?a (root m)" and c: "c = ?a"
        by (auto simp: Let_def)
      have "nodes m' ! ?a = (Node\<lparr>symbol := s, next := child (?h ! n)\<rparr>)\<lparr>backoff := Some (root m)\<rparr>"
        using n by (simp add: m' nodes_setBackoff h1 linked_new length_linked)
      moreover have cn: "child (nodes m' ! n) = Some ?a"
        using n by (simp add: m' nodes_setBackoff h1 linked_parent)
      moreover from cn have "isChild (nodes m') n ?a"
        unfolding isChild_def by (simp add: onChain.first)
      moreover have "length (nodes m') = Suc ?a"
        by (simp add: m' nodes_setBackoff h1 length_linked)
      ultimately show ?thesis using None True c none m' by (simp add: Node_def)
    next
      case False
      from run fr None False obtain b m2 r
        where b1: "backoff (nodes ?m1 ! n) = Some b"
          and rec: "addSymbolToNode ?k ?m1 b s = Some (Inr (m2, r))"
          and m': "m' = setBackoff m2 ?a r" and c: "c = ?a"
        by (auto simp: Let_def split: option.splits sum.splits)
      from b1 n have b: "backoff (?h ! n) = Some b" by (simp add: h1 linked_parent)
      from applied.recursive [OF assms fr [unfolded None] False b1]
      have ap: "applied ?m1 b s" .
      from new_node_kept [OF inv n pc b rec]
      have new: "nodes m2 ! ?a = Node\<lparr>symbol := s, next := child (?h ! n)\<rparr>"
        and par: "child (nodes m2 ! n) = Some ?a" and len: "?a < length (nodes m2)"
        by blast+
      have "nodes m' ! ?a = (Node\<lparr>symbol := s, next := child (?h ! n)\<rparr>)\<lparr>backoff := Some r\<rparr>"
        using len new by (simp add: m' nodes_setBackoff)
      moreover have cn: "child (nodes m' ! n) = Some ?a"
        using n par by (simp add: m' nodes_setBackoff)
      moreover from cn have "isChild (nodes m') n ?a"
        unfolding isChild_def by (simp add: onChain.first)
      moreover have "length (nodes m') = length (nodes m2)"
        by (simp add: m' nodes_setBackoff)
      ultimately show ?thesis using None False c b rec len none ap m' by (simp add: Node_def)
    qed
  qed
  from fr run uniq shape show ?thesis by blast
qed

text \<open>
  At the node for \<open>A\<close> of the trained model, with symbol \<open>B\<close>: a new child is created,
  and the recursive call runs on the root of the store in which that child is linked.
  At the root of the trained model, with symbol \<open>A\<close>: the child is found and counted.
\<close>

theorem growNode_behaviour_witness:
  "applied trainedModel 1 2
   \<and> addSymbolToNode 6 trainedModel 1 2 = Some (Inr (grownModel, 3))
   \<and> 3 = length (nodes trainedModel)
   \<and> count (nodes grownModel ! 3) = 1 \<and> symbol (nodes grownModel ! 3) = 2
   \<and> next (nodes grownModel ! 3) = child (nodes trainedModel ! 1)
   \<and> child (nodes grownModel ! 1) = Some 3 \<and> isChild (nodes grownModel) 1 3
   \<and> applied (linkChild trainedModel 1 2) 0 2
   \<and> (\<exists>k m2. addSymbolToNode k (linkChild trainedModel 1 2) 0 2 = Some (Inr (m2, 4))
          \<and> grownModel = setBackoff m2 3 4)
   \<and> applied trainedModel 0 1
   \<and> addSymbolToNode 3 trainedModel 0 1 = Some (Inr (bumpedModel, 1))
   \<and> isChild (nodes trainedModel) 0 1 \<and> symbol (nodes trainedModel ! 1) = 1
   \<and> count (nodes bumpedModel ! 1) = count (nodes trainedModel ! 1) + 1"
proof -
  have a1: "applied trainedModel 1 2" and a0: "applied trainedModel 0 1"
    using trained_reachable by (auto intro: applied.called simp: trainedModel_def)
  have len: "length (nodes trainedModel) = 3" "length (nodes grownModel) = 5"
    "root trainedModel = 0" "backoff (nodes trainedModel ! 1) = Some 0"
    "backoff (nodes grownModel ! 3) = Some 4"
    "count (nodes bumpedModel ! 1) = count (nodes trainedModel ! 1) + 1"
    by (simp_all add: trainedModel_def grownModel_def bumpedModel_def)
  from growNode_behaviour [OF a1] obtain k fr m' c
    where u: "\<forall>k' res. addSymbolToNode k' trainedModel 1 2 = Some res \<longrightarrow> res = Inr (m', c)"
      and sh: "case fr of
          Some e \<Rightarrow>
            isChild (nodes trainedModel) 1 e \<and> symbol (nodes trainedModel ! e) = 2
          \<and> (\<forall>x. isChild (nodes trainedModel) 1 x \<and> symbol (nodes trainedModel ! x) = 2 \<longrightarrow> x = e)
          \<and> c = e
          \<and> m' = trainedModel\<lparr>nodes := (nodes trainedModel)[e := (nodes trainedModel ! e)\<lparr>count :=
                    (if count (nodes trainedModel ! e) < 9007199254740992
                     then count (nodes trainedModel ! e) + 1
                     else count (nodes trainedModel ! e))\<rparr>]\<rparr>
        | None \<Rightarrow>
            (\<forall>x. isChild (nodes trainedModel) 1 x \<longrightarrow> symbol (nodes trainedModel ! x) \<noteq> 2)
          \<and> c = length (nodes trainedModel) \<and> length (nodes trainedModel) < length (nodes m')
          \<and> count (nodes m' ! c) = 1 \<and> symbol (nodes m' ! c) = 2
          \<and> child (nodes m' ! c) = None
          \<and> next (nodes m' ! c) = child (nodes trainedModel ! 1) \<and> child (nodes m' ! 1) = Some c
          \<and> isChild (nodes m') 1 c
          \<and> (if 1 = root trainedModel
              then backoff (nodes m' ! c) = Some (root trainedModel)
                 \<and> m' = setBackoff (linkChild trainedModel 1 2) c (root trainedModel)
              else (\<exists>b m2 r. backoff (nodes trainedModel ! 1) = Some b
                     \<and> applied (linkChild trainedModel 1 2) b 2
                     \<and> addSymbolToNode k (linkChild trainedModel 1 2) b 2 = Some (Inr (m2, r))
                     \<and> backoff (nodes m' ! c) = Some r
                     \<and> m' = setBackoff m2 c r))"
    by blast
  from u grown_run have m': "m' = grownModel" and c: "c = 3" by auto
  have frn: "fr = None"
  proof (cases fr)
    case (Some e)
    with sh have "length (nodes m') = length (nodes trainedModel)" by simp
    with m' len show ?thesis by simp
  qed simp
  from sh [unfolded frn option.case m' c] len
  have new: "count (nodes grownModel ! 3) = 1" "symbol (nodes grownModel ! 3) = 2"
    "next (nodes grownModel ! 3) = child (nodes trainedModel ! 1)"
    "child (nodes grownModel ! 1) = Some 3" "isChild (nodes grownModel) 1 3"
    and rec: "\<exists>b m2 r. backoff (nodes trainedModel ! 1) = Some b
                     \<and> applied (linkChild trainedModel 1 2) b 2
                     \<and> addSymbolToNode k (linkChild trainedModel 1 2) b 2 = Some (Inr (m2, r))
                     \<and> backoff (nodes grownModel ! 3) = Some r
                     \<and> grownModel = setBackoff m2 3 r"
    by simp_all
  from rec len have rec': "applied (linkChild trainedModel 1 2) 0 2
      \<and> (\<exists>k m2. addSymbolToNode k (linkChild trainedModel 1 2) 0 2 = Some (Inr (m2, 4))
            \<and> grownModel = setBackoff m2 3 4)"
    by auto
  from growNode_behaviour [OF a0] obtain k0 fr0 m0 c0
    where u0: "\<forall>k' res. addSymbolToNode k' trainedModel 0 1 = Some res \<longrightarrow> res = Inr (m0, c0)"
      and sh0: "case fr0 of
          Some e \<Rightarrow>
            isChild (nodes trainedModel) 0 e \<and> symbol (nodes trainedModel ! e) = 1
          \<and> (\<forall>x. isChild (nodes trainedModel) 0 x \<and> symbol (nodes trainedModel ! x) = 1 \<longrightarrow> x = e)
          \<and> c0 = e
          \<and> m0 = trainedModel\<lparr>nodes := (nodes trainedModel)[e := (nodes trainedModel ! e)\<lparr>count :=
                    (if count (nodes trainedModel ! e) < 9007199254740992
                     then count (nodes trainedModel ! e) + 1
                     else count (nodes trainedModel ! e))\<rparr>]\<rparr>
        | None \<Rightarrow>
            (\<forall>x. isChild (nodes trainedModel) 0 x \<longrightarrow> symbol (nodes trainedModel ! x) \<noteq> 1)
          \<and> c0 = length (nodes trainedModel) \<and> length (nodes trainedModel) < length (nodes m0)
          \<and> count (nodes m0 ! c0) = 1 \<and> symbol (nodes m0 ! c0) = 1
          \<and> child (nodes m0 ! c0) = None
          \<and> next (nodes m0 ! c0) = child (nodes trainedModel ! 0) \<and> child (nodes m0 ! 0) = Some c0
          \<and> isChild (nodes m0) 0 c0
          \<and> (if 0 = root trainedModel
              then backoff (nodes m0 ! c0) = Some (root trainedModel)
                 \<and> m0 = setBackoff (linkChild trainedModel 0 1) c0 (root trainedModel)
              else (\<exists>b m2 r. backoff (nodes trainedModel ! 0) = Some b
                     \<and> applied (linkChild trainedModel 0 1) b 1
                     \<and> addSymbolToNode k0 (linkChild trainedModel 0 1) b 1 = Some (Inr (m2, r))
                     \<and> backoff (nodes m0 ! c0) = Some r
                     \<and> m0 = setBackoff m2 c0 r))"
    by blast
  from u0 bumped_run have c0: "c0 = 1" by auto
  have "\<exists>e. fr0 = Some e"
  proof (cases fr0)
    case None
    with sh0 have "c0 = length (nodes trainedModel)" by simp
    with c0 len show ?thesis by simp
  qed simp
  then obtain e where fe: "fr0 = Some e" by blast
  from sh0 [unfolded fe option.case] c0
  have found: "isChild (nodes trainedModel) 0 1" "symbol (nodes trainedModel ! 1) = 1"
    by simp_all
  from a1 a0 grown_run bumped_run len new rec' found show ?thesis by (intro conjI) simp_all
qed

text \<open>
  Counterexample to C2 as stated, with a count incremented by 1 in every case: it
  fails where a count has reached \<open>2^53\<close>. The model in which \<open>A\<close> has
  been observed \<open>2^53\<close> times is reachable; its root has the child 1 for \<open>A\<close>, and
  \<open>addSymbolToNode_\<close> on the root with \<open>A\<close> returns that child with the count it had:
  \<open>count_++\<close> on the double \<open>2^53\<close> yields \<open>2^53\<close>.
\<close>

theorem growNode_saturated_counterexample:
  "reachable saturatedModel exampleContext
   \<and> isChild (nodes saturatedModel) 0 1
   \<and> symbol (nodes saturatedModel ! 1) = 1
   \<and> findChildWithSymbol 2 (nodes saturatedModel) 0 1 = Some (Some 1)
   \<and> count (nodes saturatedModel ! 1) = 9007199254740992
   \<and> (\<exists>m'. addSymbolToNode 3 saturatedModel 0 1 = Some (Inr (m', 1))
         \<and> count (nodes m' ! 1) = count (nodes saturatedModel ! 1)
         \<and> m' = saturatedModel)"
proof -
  have c: "child (nodes saturatedModel ! 0) = Some 1"
    by (simp add: saturatedModel_def countModel_def)
  have i: "isChild (nodes saturatedModel) 0 1"
    unfolding isChild_def c by (rule onChain.first)
  have "findChildWithSymbol 2 (nodes saturatedModel) 0 1 = Some (Some 1)"
    "symbol (nodes saturatedModel ! 1) = 1"
    "count (nodes saturatedModel ! 1) = 9007199254740992"
    "addSymbolToNode 3 saturatedModel 0 1 = Some (Inr (saturatedModel, 1))"
    by (simp_all add: saturatedModel_def countModel_def findChildWithSymbol_def
        eval_nat_numeral bumpCount_def increment_def)
  with saturated_reachable i show ?thesis by blast
qed

section \<open>Advancing without learning (addSymbolToContext)\<close>

text \<open>
  C5. For every model, context and symbol, \<open>addSymbolToContext\<close> returns the model it
  was given: every count and every \<open>child_\<close>, \<open>next_\<close> and \<open>backoff_\<close> link is as
  before and no node is created. On a reachable context the call ends.
\<close>

theorem advance_leaves_trie:
  "(\<forall>k m' ctx'. addSymbolToContext k m ctx s = Some (Inr (m', ctx')) \<longrightarrow> m' = m)
   \<and> (reachable m ctx \<longrightarrow> (\<exists>k r. addSymbolToContext k m ctx s = Some r))"
proof (intro conjI allI impI)
  fix k m' ctx'
  assume "addSymbolToContext k m ctx s = Some (Inr (m', ctx'))"
  then show "m' = m"
    unfolding addSymbolToContext_def by (auto split: if_splits option.splits)
next
  assume "reachable m ctx"
  then have wf: "wellFormed m" and v: "validContext m ctx"
    using reachable_wellFormed by blast+
  from wf obtain d where d: "winv (nodes m) (root m) d" unfolding wellFormed_def by blast
  obtain k where "case head ctx of None \<Rightarrow> 0 < k | Some a \<Rightarrow> length (nodes m) + d a + 2 \<le> (k::nat)"
    by (cases "head ctx") auto
  from extendLoop_total [OF d v this] obtain c where "extendLoop k m ctx s = Some c" by blast
  then have "\<exists>r. addSymbolToContext k m ctx s = Some r"
    unfolding addSymbolToContext_def by simp
  then show "\<exists>k r. addSymbolToContext k m ctx s = Some r" by blast
qed

text \<open>
  Advancing the fresh context of the untrained model by \<open>A\<close>.
\<close>

theorem advance_leaves_trie_witness:
  "addSymbolToContext 2 exampleModel exampleContext 1 = Some (Inr (exampleModel, exampleContext))
   \<and> reachable exampleModel exampleContext
   \<and> (\<exists>k r. addSymbolToContext k exampleModel exampleContext 1 = Some r)"
proof -
  have run: "addSymbolToContext 2 exampleModel exampleContext 1
      = Some (Inr (exampleModel, exampleContext))"
    by (simp add: addSymbolToContext_def exampleModel_def exampleContext_def exampleVocab_def
        rootSymbol_def size_vocab_def findChildWithSymbol_def Node_def numeral_2_eq_2)
  from advance_leaves_trie [of exampleModel exampleContext 1] example_reachable run
  show ?thesis by blast
qed

section \<open>The order after learning (addSymbolAndUpdate)\<close>

text \<open>
  C6. After every call of \<open>addSymbolAndUpdate\<close> that processes a symbol (or leaves a
  context alone whose order was within \<open>maxOrder\<close>) the order of the context is at
  most \<open>maxOrder\<close>. Every reachable context of a model with \<open>maxOrder \<ge> 0\<close> has its
  order within \<open>maxOrder\<close>, and on such a context the call returns normally for
  every symbol of the vocabulary.
\<close>

theorem observe_order_bounded:
  "(\<forall>k m' ctx'. addSymbolAndUpdate k m ctx s = Some (Inr (m', ctx'))
        \<and> (rootSymbol < s \<or> order ctx \<le> maxOrder m) \<longrightarrow> order ctx' \<le> maxOrder m')
   \<and> (reachable m ctx \<and> 0 \<le> maxOrder m \<longrightarrow>
         order ctx \<le> maxOrder m
       \<and> (rootSymbol < s \<and> s < size_vocab (vocab m) \<longrightarrow>
            (\<exists>k m' ctx'. addSymbolAndUpdate k m ctx s = Some (Inr (m', ctx')))))"
proof (intro conjI allI impI)
  fix k m' ctx'
  assume a: "addSymbolAndUpdate k m ctx s = Some (Inr (m', ctx'))
      \<and> (rootSymbol < s \<or> order ctx \<le> maxOrder m)"
  then have run: "addSymbolAndUpdate k m ctx s = Some (Inr (m', ctx'))" by blast
  from addSymbolAndUpdate_cases [OF run] a show "order ctx' \<le> maxOrder m'"
    by (auto dest: addSymbolToNode_fields backoffLoop_order)
next
  assume "reachable m ctx \<and> 0 \<le> maxOrder m"
  then show "order ctx \<le> maxOrder m" by (simp add: reachable_order)
next
  assume r: "reachable m ctx \<and> 0 \<le> maxOrder m"
    and s: "rootSymbol < s \<and> s < size_vocab (vocab m)"
  from r reachable_depth obtain d
    where d: "winv (nodes m) (root m) d" and dc: "depthContext m d ctx" by blast
  from r have "pending (nodes m) (root m) = {}"
    using reachable_wellFormed unfolding wellFormed_def by blast
  from observe_depth [OF d this dc] s
  show "\<exists>k m' ctx'. addSymbolAndUpdate k m ctx s = Some (Inr (m', ctx'))" by blast
qed

text \<open>
  Observing \<open>B\<close> after \<open>A\<close>, \<open>A\<close> with \<open>maxOrder = 2\<close>: the order would be 3, and the
  context backs off to order 2.
\<close>

theorem observe_order_bounded_witness:
  "addSymbolAndUpdate 6 trainedModel trainedContext 2
     = Some (Inr (observedModel, \<lparr>head = Some 4, order = 2\<rparr>))
   \<and> rootSymbol < 2
   \<and> order \<lparr>head = Some 4, order = 2\<rparr> \<le> maxOrder observedModel
   \<and> reachable trainedModel trainedContext \<and> 0 \<le> maxOrder trainedModel
   \<and> order trainedContext \<le> maxOrder trainedModel
   \<and> 2 < size_vocab (vocab trainedModel)
   \<and> (\<exists>k m' ctx'. addSymbolAndUpdate k trainedModel trainedContext 2 = Some (Inr (m', ctx')))"
proof -
  have h: "rootSymbol < 2" "0 \<le> maxOrder trainedModel" "2 < size_vocab (vocab trainedModel)"
    by (simp_all add: rootSymbol_def trainedModel_def exampleVocab_def size_vocab_def)
  from observe_order_bounded [of trainedModel trainedContext 2] observed_run trained_reachable h
  show ?thesis by blast
qed

section \<open>Symbols outside the vocabulary\<close>

text \<open>
  C8. For a model whose vocabulary has at least two entries (the constructor asserts
  it), \<open>addSymbolToContext\<close> and \<open>addSymbolAndUpdate\<close> return at once with model and
  context unchanged when the symbol is at most 0, the root symbol, and throw when the
  symbol is the size of the vocabulary or more.
\<close>

theorem ignored_or_invalid_symbol:
  assumes "1 < size_vocab (vocab m)"
  shows "(s \<le> 0 \<longrightarrow> addSymbolToContext k m ctx s = Some (Inr (m, ctx))
                  \<and> addSymbolAndUpdate k m ctx s = Some (Inr (m, ctx)))
       \<and> (size_vocab (vocab m) \<le> s \<longrightarrow>
             addSymbolToContext k m ctx s = Some (Inl (InvalidSymbol s))
           \<and> addSymbolAndUpdate k m ctx s = Some (Inl (InvalidSymbol s)))"
  using assms by (auto simp: addSymbolToContext_def addSymbolAndUpdate_def rootSymbol_def)

text \<open>
  Symbols 0 and -1 are ignored, symbol 3 is rejected by a vocabulary of size 3.
\<close>

theorem ignored_or_invalid_symbol_witness:
  "1 < size_vocab (vocab trainedModel)
   \<and> addSymbolToContext 0 trainedModel trainedContext 0 = Some (Inr (trainedModel, trainedContext))
   \<and> addSymbolAndUpdate 0 trainedModel trainedContext (- 1) = Some (Inr (trainedModel, trainedContext))
   \<and> addSymbolToContext 0 trainedModel trainedContext 3 = Some (Inl (InvalidSymbol 3))
   \<and> addSymbolAndUpdate 0 trainedModel trainedContext 3 = Some (Inl (InvalidSymbol 3))"
proof -
  have h: "1 < size_vocab (vocab trainedModel)"
    by (simp add: trainedModel_def exampleVocab_def size_vocab_def)
  have 3: "size_vocab (vocab trainedModel) \<le> 3"
    by (simp add: trainedModel_def exampleVocab_def size_vocab_def)
  from ignored_or_invalid_symbol [OF h, of 0 0 trainedContext]
    ignored_or_invalid_symbol [OF h, of "- 1" 0 trainedContext]
    ignored_or_invalid_symbol [OF h, of 3 0 trainedContext] h 3
  show ?thesis by simp
qed

section \<open>Counts\<close>

text \<open>
  C9. In a reachable model every node has a count of at least 1;
  \<open>addSymbolAndUpdate\<close> removes no node and lowers no count, and
  \<open>addSymbolToContext\<close> leaves the nodes as they are.
\<close>

theorem counts_never_decrease:
  assumes "reachable m ctx"
  shows "(\<forall>a<length (nodes m). 1 \<le> count (nodes m ! a))
       \<and> (\<forall>k s m' ctx'. addSymbolAndUpdate k m ctx s = Some (Inr (m', ctx')) \<longrightarrow>
             length (nodes m) \<le> length (nodes m')
           \<and> (\<forall>a<length (nodes m). count (nodes m ! a) \<le> count (nodes m' ! a)))
       \<and> (\<forall>k s m' ctx'. addSymbolToContext k m ctx s = Some (Inr (m', ctx')) \<longrightarrow>
             nodes m' = nodes m)"
proof -
  from assms have wf: "wellFormed m" and v: "validContext m ctx"
    using reachable_wellFormed by blast+
  from wf obtain d where d: "winv (nodes m) (root m) d" unfolding wellFormed_def by blast
  have 1: "\<forall>a<length (nodes m). 1 \<le> count (nodes m ! a)"
    using d unfolding winv_def okNode_def by blast
  have 2: "length (nodes m) \<le> length (nodes m')
           \<and> (\<forall>a<length (nodes m). count (nodes m ! a) \<le> count (nodes m' ! a))"
    if "addSymbolAndUpdate k m ctx s = Some (Inr (m', ctx'))" for k s m' ctx'
    using observe_step [OF wf v that] by blast
  have 3: "nodes m' = nodes m"
    if "addSymbolToContext k m ctx s = Some (Inr (m', ctx'))" for k s m' ctx'
    using advance_step [OF wf v that] by simp
  from 1 2 3 show ?thesis by blast
qed

text \<open>
  At the trained model.
\<close>

theorem counts_never_decrease_witness:
  "reachable trainedModel trainedContext
   \<and> 1 \<le> count (nodes trainedModel ! 0) \<and> 1 \<le> count (nodes trainedModel ! 1)
   \<and> 1 \<le> count (nodes trainedModel ! 2)
   \<and> addSymbolAndUpdate 6 trainedModel trainedContext 2
       = Some (Inr (observedModel, \<lparr>head = Some 4, order = 2\<rparr>))
   \<and> length (nodes trainedModel) \<le> length (nodes observedModel)
   \<and> count (nodes trainedModel ! 0) \<le> count (nodes observedModel ! 0)
   \<and> count (nodes trainedModel ! 1) \<le> count (nodes observedModel ! 1)
   \<and> count (nodes trainedModel ! 2) \<le> count (nodes observedModel ! 2)"
proof -
  have l: "0 < length (nodes trainedModel)" "1 < length (nodes trainedModel)"
    "2 < length (nodes trainedModel)"
    by (simp_all add: trainedModel_def)
  from counts_never_decrease [OF trained_reachable] observed_run l trained_reachable
  show ?thesis by blast
qed

section \<open>The assertion in addSymbolAndUpdate\<close>



section \<open>The vocabulary does not reserve index 0\<close>

text \<open>
  C4. Index 0 is the root symbol (\<open>rootSymbol\<close>, the symbol of the root node, ignored
  by both operations on contexts) and is meant never to be given to a character. The
  constructor of \<open>Vocabulary\<close> leaves \<open>symbols_\<close> empty, though: the first character
  inserted gets index 0, and the lookup returns 0 for it.
\<close>

theorem addSymbol_first_is_root:
  "snd (addSymbol Vocabulary ''A'') = 0
   \<and> getSymbolIndex (fst (addSymbol Vocabulary ''A'')) ''A'' = rootSymbol"
  by (simp add: addSymbol_def Vocabulary_def includesSymbol_def getSymbolIndex_def
      indexOf_def rootSymbol_def)

end
